theory Spec2Isabelle
  imports
    Main
    "HOL-Library.Word"
    "HOL-Library.Signed_Division"
    "HOL-Library.Multiset"
    "HOL-Library.Sublist"
begin

section \<open>The bit image (\<^verbatim>\<open>PolylineFitting::BitImage\<close>, Example.hpp)\<close>

text \<open>
  \<^verbatim>\<open>BitImage\<close> is a \<^verbatim>\<open>std::vector<uint8_t>\<close> with two constant fields
  \<^verbatim>\<open>m_rows\<close> and \<^verbatim>\<open>m_cols\<close> (both \<^verbatim>\<open>int32_t\<close>). The vector is the field
  \<open>bits\<close>. An iterator into the vector is modelled by its distance from
  \<^verbatim>\<open>begin()\<close>, an \<open>int\<close>. The \<^verbatim>\<open>int32_t\<close> values are modelled as \<open>int\<close>:
  signed overflow is undefined in the source and no claim depends on it.
  Division and remainder are the truncating ones of C++ (\<open>sdiv\<close>, \<open>smod\<close>).
\<close>

record BitImage =
  m_rows :: int
  m_cols :: int
  bits :: "8 word list"

text \<open>
  The constructor allocates \<^verbatim>\<open>rows * cols\<close> pixels; this is the class invariant
  of every image the code builds.
\<close>

definition wellFormed :: "BitImage \<Rightarrow> bool" where
  "wellFormed img =
     (0 \<le> m_rows img \<and> 0 \<le> m_cols img \<and>
      int (length (bits img)) = m_rows img * m_cols img)"

text \<open>
  \<^verbatim>\<open>*px\<close> for reading and \<^verbatim>\<open>*px = v\<close> for writing. Outside the vector both are
  undefined behaviour in the source; the model reads 0 and writes nothing
  there. The theorems below are stated for well-formed images and positions
  inside them, where every access of the code is inside the vector
  (lemma \<open>find_px_in_range\<close>).
\<close>

definition deref :: "BitImage \<Rightarrow> int \<Rightarrow> 8 word" where
  "deref img px =
     (if 0 \<le> px \<and> px < int (length (bits img)) then bits img ! nat px else 0)"

definition assign :: "BitImage \<Rightarrow> int \<Rightarrow> 8 word \<Rightarrow> BitImage" where
  "assign img px v =
     (if 0 \<le> px \<and> px < int (length (bits img))
      then img\<lparr>bits := (bits img)[nat px := v]\<rparr> else img)"

definition coords :: "BitImage \<Rightarrow> int \<Rightarrow> int \<times> int" where
  "coords img px = (px sdiv m_cols img, px smod m_cols img)"

definition find_px :: "BitImage \<Rightarrow> int \<Rightarrow> int \<Rightarrow> int" where
  "find_px img row col = m_cols img * row + col"

text \<open>
  \<^verbatim>\<open>section(r0, c0, rows, cols)\<close>: two nested \<^verbatim>\<open>for\<close> loops, row-major. The
  loops run while \<^verbatim>\<open>r < r0 + rows\<close> and \<^verbatim>\<open>c < c0 + cols\<close>, so a non-positive
  extent gives no pixel.
\<close>

definition section_px :: "BitImage \<Rightarrow> int \<Rightarrow> int \<Rightarrow> int \<Rightarrow> int \<Rightarrow> int list" where
  "section_px img r0 c0 rows cols =
     concat (map (\<lambda>r. map (\<lambda>c. m_cols img * r + c) [c0..c0 + cols - 1])
                 [r0..r0 + rows - 1])"

section \<open>The thinner (\<^verbatim>\<open>PolylineFitting::thinImage\<close>)\<close>

text \<open>
  The body of the \<^verbatim>\<open>for (auto px : onPixels)\<close> loop: the eight neighbours are
  read through \<^verbatim>\<open>coords\<close> and \<^verbatim>\<open>find\<close>; \<^verbatim>\<open>A\<close> adds eight
  \<^verbatim>\<open>int32_t{!p && q}\<close>; \<^verbatim>\<open>B\<close> adds the eight \<^verbatim>\<open>uint8_t\<close> values after integer
  promotion. The result is the condition of the \<^verbatim>\<open>if\<close> that flags the pixel.
\<close>

definition thinFlag :: "BitImage \<Rightarrow> bool \<Rightarrow> int \<Rightarrow> bool" where
  "thinFlag img iteration px =
     (let (r, c) = coords img px;
          p2 = deref img (find_px img (r - 1) (c + 0));
          p3 = deref img (find_px img (r - 1) (c + 1));
          p4 = deref img (find_px img (r + 0) (c + 1));
          p5 = deref img (find_px img (r + 1) (c + 1));
          p6 = deref img (find_px img (r + 1) (c + 0));
          p7 = deref img (find_px img (r + 1) (c - 1));
          p8 = deref img (find_px img (r + 0) (c - 1));
          p9 = deref img (find_px img (r - 1) (c - 1));
          A = (of_bool (p2 = 0 \<and> p3 \<noteq> 0) + of_bool (p3 = 0 \<and> p4 \<noteq> 0)
             + of_bool (p4 = 0 \<and> p5 \<noteq> 0) + of_bool (p5 = 0 \<and> p6 \<noteq> 0)
             + of_bool (p6 = 0 \<and> p7 \<noteq> 0) + of_bool (p7 = 0 \<and> p8 \<noteq> 0)
             + of_bool (p8 = 0 \<and> p9 \<noteq> 0) + of_bool (p9 = 0 \<and> p2 \<noteq> 0) :: int);
          B = uint p2 + uint p3 + uint p4 + uint p5 + uint p6 + uint p7 + uint p8 + uint p9;
          m1 = (if iteration then p2 \<noteq> 0 \<and> p4 \<noteq> 0 \<and> p8 \<noteq> 0
                else p2 \<noteq> 0 \<and> p4 \<noteq> 0 \<and> p6 \<noteq> 0);
          m2 = (if iteration then p2 \<noteq> 0 \<and> p6 \<noteq> 0 \<and> p8 \<noteq> 0
                else p4 \<noteq> 0 \<and> p6 \<noteq> 0 \<and> p8 \<noteq> 0)
      in A = 1 \<and> (B \<ge> 2 \<and> B \<le> 6) \<and> \<not> m1 \<and> \<not> m2)"

text \<open>
  One pass of the \<^verbatim>\<open>while\<close> body: erase the off pixels from the working
  set, collect the flagged pixels reading the image (which the \<^verbatim>\<open>for\<close> loop
  does not write), then clear every flagged pixel (\<^verbatim>\<open>std::for_each\<close>). The
  result is the image, the working set and \<^verbatim>\<open>flaggedPixels\<close>.
\<close>

definition thinBody :: "BitImage \<Rightarrow> bool \<Rightarrow> int list \<Rightarrow> BitImage \<times> int list \<times> int list" where
  "thinBody img iteration onPixels =
     (let onPixels' = filter (\<lambda>px. \<not> (deref img px = 0)) onPixels;
          flaggedPixels = filter (thinFlag img iteration) onPixels';
          img' = foldl (\<lambda>im px. assign im px 0) img flaggedPixels
      in (img', onPixels', flaggedPixels))"

lemma bits_length_assign: "length (bits (assign img px v)) = length (bits img)"
  by (simp add: assign_def)

lemma bits_length_clear:
  "length (bits (foldl (\<lambda>im px. assign im px 0) img pxs)) = length (bits img)"
  by (induction pxs arbitrary: img) (simp_all add: bits_length_assign)

lemma deref_assign:
  "deref (assign img px v) q =
     (if q = px \<and> 0 \<le> px \<and> px < int (length (bits img)) then v else deref img q)"
  by (auto simp: deref_def assign_def nth_list_update)

lemma deref_clear:
  "deref (foldl (\<lambda>im px. assign im px 0) img pxs) q =
     (if q \<in> set pxs then 0 else deref img q)"
proof (induction pxs arbitrary: img)
  case Nil
  show ?case by simp
next
  case (Cons p ps)
  have "deref (assign img p 0) p = 0"
    by (simp add: deref_assign) (simp add: deref_def)
  then show ?case
    by (simp add: Cons.IH deref_assign)
qed

lemma deref_nonzero_in_range:
  "deref img px \<noteq> 0 \<Longrightarrow> 0 \<le> px \<and> px < int (length (bits img))"
  by (simp add: deref_def split: if_splits)

text \<open>
  The \<^verbatim>\<open>while (difference)\<close> loop. \<^verbatim>\<open>difference\<close> starts true, so the body
  runs at least once; it runs again exactly when \<^verbatim>\<open>flaggedPixels\<close> was not
  empty, with \<^verbatim>\<open>iteration\<close> flipped. The loop ends because every further
  pass starts from a strictly smaller set of on pixels in the working set.
\<close>

function thinLoop :: "BitImage \<Rightarrow> bool \<Rightarrow> int list \<Rightarrow> BitImage" where
  "thinLoop img iteration onPixels =
     (case thinBody img iteration onPixels of
        (img', onPixels', flaggedPixels) \<Rightarrow>
          if flaggedPixels \<noteq> [] then thinLoop img' (\<not> iteration) onPixels' else img')"
  by pat_completeness auto

lemma filter_shrinks:
  assumes "x \<in> set xs" and "P x" and "\<not> Q x" and "\<And>y. Q y \<Longrightarrow> P y"
  shows "length (filter Q xs) < length (filter P xs)"
  using assms(1)
proof (induction xs)
  case Nil
  then show ?case by simp
next
  case (Cons a xs)
  have le: "length (filter Q xs) \<le> length (filter P xs)"
    by (induction xs) (auto dest: assms(4))
  show ?case
  proof (cases "x = a")
    case True
    with assms(2,3) le show ?thesis by simp
  next
    case False
    with Cons have "length (filter Q xs) < length (filter P xs)" by simp
    then show ?thesis using assms(4) by auto
  qed
qed

lemma thinBody_measure:
  assumes body: "thinBody img iteration onPixels = (img', onPixels', flaggedPixels)"
    and ne: "flaggedPixels \<noteq> []"
  shows "length (filter (\<lambda>p. \<not> (deref img' p = 0)) onPixels')
         < length (filter (\<lambda>p. \<not> (deref img p = 0)) onPixels)"
proof -
  obtain px where px: "px \<in> set flaggedPixels"
    using ne by (cases flaggedPixels) auto
  have on': "onPixels' = filter (\<lambda>p. \<not> (deref img p = 0)) onPixels"
    and fl: "flaggedPixels = filter (thinFlag img iteration) onPixels'"
    and im: "img' = foldl (\<lambda>im p. assign im p 0) img flaggedPixels"
    using body by (auto simp: thinBody_def Let_def)
  have "length (filter (\<lambda>p. \<not> (deref img' p = 0)) onPixels')
        < length (filter (\<lambda>p. \<not> (deref img p = 0)) onPixels')"
  proof (rule filter_shrinks [where x = px])
    show "px \<in> set onPixels'" using px fl by simp
    show "\<not> (deref img px = 0)" using px fl on' by simp
    show "\<not> \<not> (deref img' px = 0)" using px by (simp add: im deref_clear)
    show "\<And>y. \<not> (deref img' y = 0) \<Longrightarrow> \<not> (deref img y = 0)"
      by (simp add: im deref_clear split: if_splits)
  qed
  also have "filter (\<lambda>p. \<not> (deref img p = 0)) onPixels' = onPixels'"
    by (simp add: on')
  finally show ?thesis
    by (simp add: on')
qed

termination thinLoop
  by (relation "measure (\<lambda>(img, iteration, onPixels).
                  length (filter (\<lambda>px. \<not> (deref img px = 0)) onPixels))")
     (auto dest: thinBody_measure [OF sym])

definition thinImage :: "BitImage \<Rightarrow> BitImage" where
  "thinImage img =
     thinLoop img False (section_px img 1 1 (m_rows img - 2) (m_cols img - 2))"

text \<open>The number of on pixels of the image.\<close>

definition onCount :: "BitImage \<Rightarrow> nat" where
  "onCount img = length (filter (\<lambda>v. \<not> (v = 0)) (bits img))"

lemma onCount_assign_le: "onCount (assign img px 0) \<le> onCount img"
proof (cases "0 \<le> px \<and> px < int (length (bits img))")
  case False
  then show ?thesis by (auto simp: assign_def)
next
  case True
  then have i: "nat px < length (bits img)" by auto
  have "length (filter (\<lambda>v. \<not> (v = 0)) ((bits img)[nat px := 0]))
        \<le> length (filter (\<lambda>v. \<not> (v = 0)) (bits img))"
    by (subst (2) id_take_nth_drop [OF i]) (simp add: upd_conv_take_nth_drop [OF i])
  with True show ?thesis by (simp add: onCount_def assign_def)
qed

lemma onCount_assign_less:
  assumes "deref img px \<noteq> 0"
  shows "onCount (assign img px 0) < onCount img"
proof -
  have r: "0 \<le> px \<and> px < int (length (bits img))"
    using assms by (rule deref_nonzero_in_range)
  then have i: "nat px < length (bits img)" by auto
  have nz: "bits img ! nat px \<noteq> 0" using assms r by (simp add: deref_def)
  have "length (filter (\<lambda>v. \<not> (v = 0)) ((bits img)[nat px := 0]))
        < length (filter (\<lambda>v. \<not> (v = 0)) (bits img))"
    by (subst (2) id_take_nth_drop [OF i]) (simp add: upd_conv_take_nth_drop [OF i] nz)
  with r show ?thesis by (simp add: onCount_def assign_def)
qed

lemma onCount_clear_le:
  "onCount (foldl (\<lambda>im px. assign im px 0) img pxs) \<le> onCount img"
proof (induction pxs arbitrary: img)
  case Nil
  show ?case by simp
next
  case (Cons p ps)
  have "onCount (foldl (\<lambda>im px. assign im px 0) (assign img p 0) ps) \<le> onCount (assign img p 0)"
    by (rule Cons.IH)
  also have "\<dots> \<le> onCount img" by (rule onCount_assign_le)
  finally show ?case by simp
qed

lemma onCount_clear_less:
  assumes "px \<in> set pxs" and "deref img px \<noteq> 0"
  shows "onCount (foldl (\<lambda>im px. assign im px 0) img pxs) < onCount img"
  using assms
proof (induction pxs arbitrary: img)
  case Nil
  then show ?case by simp
next
  case (Cons p ps)
  show ?case
  proof (cases "deref img p = 0")
    case False
    have "onCount (foldl (\<lambda>im px. assign im px 0) (assign img p 0) ps) \<le> onCount (assign img p 0)"
      by (rule onCount_clear_le)
    also have "\<dots> < onCount img" using False by (rule onCount_assign_less)
    finally show ?thesis by simp
  next
    case True
    with Cons.prems have ne: "px \<noteq> p" and mem: "px \<in> set ps" by auto
    have "deref (assign img p 0) px \<noteq> 0"
      using Cons.prems(2) ne by (simp add: deref_assign)
    with mem have "onCount (foldl (\<lambda>im px. assign im px 0) (assign img p 0) ps)
                   < onCount (assign img p 0)"
      by (rule Cons.IH)
    also have "\<dots> \<le> onCount img" by (rule onCount_assign_le)
    finally show ?thesis by simp
  qed
qed

lemma thinBody_facts:
  assumes "thinBody img iteration onPixels = (img', onPixels', flaggedPixels)"
  shows "onPixels' = filter (\<lambda>p. \<not> (deref img p = 0)) onPixels"
    and "flaggedPixels = filter (thinFlag img iteration) onPixels'"
    and "img' = foldl (\<lambda>im p. assign im p 0) img flaggedPixels"
  using assms by (auto simp: thinBody_def Let_def)

lemma thinBody_monotone:
  assumes "thinBody img iteration onPixels = (img', onPixels', flaggedPixels)"
  shows "deref img' px \<noteq> 0 \<Longrightarrow> deref img px \<noteq> 0"
  by (simp add: thinBody_facts(3) [OF assms] deref_clear split: if_splits)

lemma thinBody_decreases:
  assumes b: "thinBody img iteration onPixels = (img', onPixels', flaggedPixels)"
    and ne: "flaggedPixels \<noteq> []"
  shows "onCount img' < onCount img"
proof -
  obtain px where px: "px \<in> set flaggedPixels"
    using ne by (cases flaggedPixels) auto
  then have "deref img px \<noteq> 0"
    by (simp add: thinBody_facts(2) [OF b] thinBody_facts(1) [OF b])
  with px show ?thesis
    unfolding thinBody_facts(3) [OF b] by (rule onCount_clear_less)
qed

lemma thinLoop_monotone:
  "deref (thinLoop img iteration onPixels) px \<noteq> 0 \<Longrightarrow> deref img px \<noteq> 0"
proof (induction img iteration onPixels rule: thinLoop.induct)
  case (1 img iteration onPixels)
  obtain img' onPixels' flaggedPixels
    where b: "thinBody img iteration onPixels = (img', onPixels', flaggedPixels)"
    by (cases "thinBody img iteration onPixels") auto
  show ?case
  proof (cases "flaggedPixels = []")
    case True
    with "1.prems" b have "deref img' px \<noteq> 0" by simp
    then show ?thesis by (rule thinBody_monotone [OF b])
  next
    case False
    with "1.prems" b have "deref (thinLoop img' (\<not> iteration) onPixels') px \<noteq> 0" by simp
    then have "deref img' px \<noteq> 0"
      using "1.IH" [OF b [symmetric] refl False] by simp
    then show ?thesis by (rule thinBody_monotone [OF b])
  qed
qed

lemma thinLoop_length:
  "length (bits (thinLoop img iteration onPixels)) = length (bits img)"
proof (induction img iteration onPixels rule: thinLoop.induct)
  case (1 img iteration onPixels)
  obtain img' onPixels' flaggedPixels
    where b: "thinBody img iteration onPixels = (img', onPixels', flaggedPixels)"
    by (cases "thinBody img iteration onPixels") auto
  have len: "length (bits img') = length (bits img)"
    by (simp add: thinBody_facts(3) [OF b] bits_length_clear)
  show ?case
  proof (cases "flaggedPixels = []")
    case True
    with b len show ?thesis by simp
  next
    case False
    with b len "1.IH" [OF b [symmetric] refl False] show ?thesis by simp
  qed
qed

text \<open>
  C7. \<^verbatim>\<open>thinImage\<close> terminates: \<open>thinLoop\<close> is a total function, defined by
  well-founded recursion with the termination proof above. No pixel that is
  off before \<^verbatim>\<open>thinImage\<close> is on after it, and the vector keeps its length.
  For every pass of the loop body, from any state: no pixel goes from off to
  on; when nothing was flagged the image is unchanged and the loop returns
  it (the final pass); otherwise the number of on pixels strictly decreases
  and the loop goes on with the flipped \<^verbatim>\<open>iteration\<close>.
\<close>

theorem thinImage_terminates_monotone:
  "(\<forall>px. deref (thinImage img) px \<noteq> 0 \<longrightarrow> deref img px \<noteq> 0) \<and>
   length (bits (thinImage img)) = length (bits img) \<and>
   (\<forall>im iteration onPixels im' onPixels' flaggedPixels.
      thinBody im iteration onPixels = (im', onPixels', flaggedPixels) \<longrightarrow>
        (\<forall>px. deref im' px \<noteq> 0 \<longrightarrow> deref im px \<noteq> 0) \<and>
        (if flaggedPixels = []
         then im' = im \<and> thinLoop im iteration onPixels = im
         else onCount im' < onCount im \<and>
              thinLoop im iteration onPixels = thinLoop im' (\<not> iteration) onPixels'))"
proof (intro conjI allI impI)
  fix px
  assume "deref (thinImage img) px \<noteq> 0"
  then show "deref img px \<noteq> 0"
    unfolding thinImage_def by (rule thinLoop_monotone)
next
  show "length (bits (thinImage img)) = length (bits img)"
    unfolding thinImage_def by (rule thinLoop_length)
next
  fix im iteration onPixels im' onPixels' flaggedPixels px
  assume b: "thinBody im iteration onPixels = (im', onPixels', flaggedPixels)"
    and "deref im' px \<noteq> 0"
  then show "deref im px \<noteq> 0" by (rule thinBody_monotone)
next
  fix im iteration onPixels im' onPixels' flaggedPixels
  assume b: "thinBody im iteration onPixels = (im', onPixels', flaggedPixels)"
  show "if flaggedPixels = []
        then im' = im \<and> thinLoop im iteration onPixels = im
        else onCount im' < onCount im \<and>
             thinLoop im iteration onPixels = thinLoop im' (\<not> iteration) onPixels'"
  proof (cases "flaggedPixels = []")
    case True
    then have "im' = im" using thinBody_facts(3) [OF b] by simp
    with True b show ?thesis by simp
  next
    case False
    with b thinBody_decreases [OF b False] show ?thesis by simp
  qed
qed

theorem thinImage_terminates_monotone_witness:
  "thinBody \<lparr>m_rows = 3, m_cols = 3, bits = [1,1,0, 0,1,0, 0,0,0]\<rparr> False [4]
     = (\<lparr>m_rows = 3, m_cols = 3, bits = [1,1,0, 0,0,0, 0,0,0]\<rparr>, [4], [4]) \<and>
   onCount \<lparr>m_rows = 3, m_cols = 3, bits = [1,1,0, 0,0,0, 0,0,0]\<rparr>
     < onCount \<lparr>m_rows = 3, m_cols = 3, bits = [1,1,0, 0,1,0, 0,0,0]\<rparr> \<and>
   deref (thinImage \<lparr>m_rows = 3, m_cols = 3, bits = [1,1,0, 0,1,0, 0,0,0]\<rparr>) 0 \<noteq> 0 \<and>
   deref \<lparr>m_rows = 3, m_cols = 3, bits = [1,1,0, 0,1,0, 0,0,0]\<rparr> 0 \<noteq> 0"
proof -
  let ?I = "\<lparr>m_rows = 3, m_cols = 3, bits = [1,1,0, 0,1,0, 0,0,0]\<rparr>"
  let ?I' = "\<lparr>m_rows = 3, m_cols = 3, bits = [1,1,0, 0,0,0, 0,0,0]\<rparr>"
  have b: "thinBody ?I False [4] = (?I', [4], [4])" by code_simp
  have t: "deref (thinImage ?I) 0 \<noteq> 0" by code_simp
  have ne: "[4::int] \<noteq> []" by simp
  note th = thinImage_terminates_monotone [of ?I]
  from th t have d: "deref ?I 0 \<noteq> 0" by (elim conjE allE [of _ 0]) simp
  from th have "onCount ?I' < onCount ?I"
    apply (elim conjE)
    apply (drule spec [of _ ?I], drule spec [of _ False], drule spec [of _ "[4]"])
    apply (drule spec [of _ ?I'], drule spec [of _ "[4]"], drule spec [of _ "[4]"])
    apply (drule mp [OF _ b])
    apply (simp only: ne if_False)
    done
  with d show ?thesis using b t by simp
qed

section \<open>The flag rule of the thinner, in the words of the specification\<close>

text \<open>
  The grid view of the image: the value of the pixel in row \<open>r\<close> and column
  \<open>c\<close> (row-major), as an integer. \<open>neighbours\<close> lists \<open>P2, ..., P9\<close>
  clockwise from the north; \<open>zs_A\<close> counts the steps from an off pixel to an
  on pixel around the cycle \<open>P2, P3, ..., P9, P2\<close>; \<open>zs_B\<close> is
  \<open>P2 + ... + P9\<close>; \<open>zs_m1\<close> and \<open>zs_m2\<close> are the products of
  sub-iteration 0 and of sub-iteration 1.
\<close>

definition pixelAt :: "BitImage \<Rightarrow> int \<Rightarrow> int \<Rightarrow> int" where
  "pixelAt img r c = uint (deref img (m_cols img * r + c))"

definition neighbours :: "BitImage \<Rightarrow> int \<Rightarrow> int \<Rightarrow> int list" where
  "neighbours img r c =
     [pixelAt img (r - 1) c, pixelAt img (r - 1) (c + 1), pixelAt img r (c + 1),
      pixelAt img (r + 1) (c + 1), pixelAt img (r + 1) c, pixelAt img (r + 1) (c - 1),
      pixelAt img r (c - 1), pixelAt img (r - 1) (c - 1)]"

definition transitions :: "int list \<Rightarrow> int" where
  "transitions ps = sum_list (map (\<lambda>(a, b). of_bool (a = 0 \<and> b \<noteq> 0)) (zip ps (rotate1 ps)))"

definition zs_A :: "BitImage \<Rightarrow> int \<Rightarrow> int \<Rightarrow> int" where
  "zs_A img r c = transitions (neighbours img r c)"

definition zs_B :: "BitImage \<Rightarrow> int \<Rightarrow> int \<Rightarrow> int" where
  "zs_B img r c = sum_list (neighbours img r c)"

definition zs_m1 :: "BitImage \<Rightarrow> nat \<Rightarrow> int \<Rightarrow> int \<Rightarrow> int" where
  "zs_m1 img sub r c =
     (if sub = 0 then pixelAt img (r - 1) c * pixelAt img r (c + 1) * pixelAt img (r + 1) c
      else pixelAt img (r - 1) c * pixelAt img r (c + 1) * pixelAt img r (c - 1))"

definition zs_m2 :: "BitImage \<Rightarrow> nat \<Rightarrow> int \<Rightarrow> int \<Rightarrow> int" where
  "zs_m2 img sub r c =
     (if sub = 0 then pixelAt img r (c + 1) * pixelAt img (r + 1) c * pixelAt img r (c - 1)
      else pixelAt img (r - 1) c * pixelAt img (r + 1) c * pixelAt img r (c - 1))"

definition zs_flag :: "BitImage \<Rightarrow> nat \<Rightarrow> int \<Rightarrow> int \<Rightarrow> bool" where
  "zs_flag img sub r c =
     (zs_A img r c = 1 \<and> 2 \<le> zs_B img r c \<and> zs_B img r c \<le> 6 \<and>
      zs_m1 img sub r c = 0 \<and> zs_m2 img sub r c = 0)"

definition interior :: "BitImage \<Rightarrow> int \<Rightarrow> int \<Rightarrow> bool" where
  "interior img r c = (1 \<le> r \<and> r \<le> m_rows img - 2 \<and> 1 \<le> c \<and> c \<le> m_cols img - 2)"

text \<open>
  The states \<^verbatim>\<open>(image, iteration, onPixels)\<close> at the head of the \<^verbatim>\<open>while\<close>
  body, with the number of passes made before: the first is the state
  \<^verbatim>\<open>thinImage\<close> starts from; another pass follows when the pass before
  flagged something.
\<close>

inductive thinReach :: "BitImage \<Rightarrow> nat \<Rightarrow> BitImage \<times> bool \<times> int list \<Rightarrow> bool"
  for img0 :: BitImage where
  first: "thinReach img0 0 (img0, False, section_px img0 1 1 (m_rows img0 - 2) (m_cols img0 - 2))"
| again: "thinReach img0 n (img, iteration, onPixels) \<Longrightarrow>
          thinBody img iteration onPixels = (img', onPixels', flaggedPixels) \<Longrightarrow>
          flaggedPixels \<noteq> [] \<Longrightarrow>
          thinReach img0 (Suc n) (img', \<not> iteration, onPixels')"

lemma set_section_px:
  "set (section_px img r0 c0 rows cols) =
     {m_cols img * r + c | r c. r0 \<le> r \<and> r < r0 + rows \<and> c0 \<le> c \<and> c < c0 + cols}"
  apply (auto simp: section_px_def)
  subgoal for x xa
    by (rule exI [of _ xa], rule exI [of _ "x - m_cols img * xa"]) auto
  done

lemma sdiv_nonneg: "0 \<le> k \<Longrightarrow> 0 < l \<Longrightarrow> k sdiv l = k div (l::int)"
  by (cases "k = 0") (simp_all add: signed_divide_int_def sgn_if)

lemma smod_nonneg: "0 \<le> k \<Longrightarrow> 0 < l \<Longrightarrow> k smod l = k mod (l::int)"
  by (cases "k = 0") (simp_all add: signed_modulo_int_def sgn_if)

lemma coords_find_px:
  assumes "0 \<le> r" "0 \<le> c" "c < m_cols img"
  shows "coords img (find_px img r c) = (r, c)"
proof -
  have m: "0 < m_cols img" using assms by simp
  have n: "0 \<le> m_cols img * r + c" using assms by simp
  have "(m_cols img * r + c) div m_cols img = r" using assms by simp
  moreover have "(m_cols img * r + c) mod m_cols img = c" using assms by simp
  ultimately show ?thesis
    by (simp add: coords_def find_px_def sdiv_nonneg [OF n m] smod_nonneg [OF n m])
qed

lemma find_px_in_range:
  assumes "wellFormed img" "0 \<le> r" "r < m_rows img" "0 \<le> c" "c < m_cols img"
  shows "0 \<le> find_px img r c \<and> find_px img r c < int (length (bits img))"
proof -
  have "m_cols img * r + c < m_cols img * r + m_cols img" using assms by simp
  also have "\<dots> = m_cols img * (r + 1)" by (simp add: algebra_simps)
  also have "\<dots> \<le> m_cols img * m_rows img"
    using assms by (intro mult_left_mono) auto
  finally show ?thesis using assms by (simp add: find_px_def wellFormed_def mult.commute)
qed

lemma transitions_eight:
  "transitions [a, b, c, d, e, f, g, h] =
     of_bool (a = 0 \<and> b \<noteq> 0) + of_bool (b = 0 \<and> c \<noteq> 0) + of_bool (c = 0 \<and> d \<noteq> 0)
   + of_bool (d = 0 \<and> e \<noteq> 0) + of_bool (e = 0 \<and> f \<noteq> 0) + of_bool (f = 0 \<and> g \<noteq> 0)
   + of_bool (g = 0 \<and> h \<noteq> 0) + of_bool (h = 0 \<and> a \<noteq> 0)"
  unfolding transitions_def by (simp only: rotate1.simps append.simps zip_Cons_Cons zip_Nil list.map prod.case sum_list.Cons sum_list.Nil add_0_right add.assoc)


lemma thinFlag_zs_flag:
  assumes "1 \<le> r" "1 \<le> c" "c < m_cols img"
  shows "thinFlag img iteration (find_px img r c) = zs_flag img (if iteration then 1 else 0) r c"
proof -
  have "coords img (find_px img r c) = (r, c)"
    using assms by (intro coords_find_px) auto
  then have co: "coords img (m_cols img * r + c) = (r, c)"
    by (simp only: find_px_def)
  show ?thesis
  proof (cases iteration)
    case True
    show ?thesis
      unfolding thinFlag_def find_px_def co zs_flag_def zs_A_def zs_B_def neighbours_def transitions_eight
        zs_m1_def zs_m2_def pixelAt_def find_px_def Let_def prod.case
      by (simp only: True if_True uint_0_iff add_0_right sum_list.Cons sum_list.Nil
            add.assoc mult_eq_0_iff de_Morgan_conj not_not if_True if_False conj_assoc disj_assoc One_nat_def nat.simps zero_neq_one one_neq_zero One_nat_def nat.simps)
  next
    case False
    show ?thesis
      unfolding thinFlag_def find_px_def co zs_flag_def zs_A_def zs_B_def neighbours_def transitions_eight
        zs_m1_def zs_m2_def pixelAt_def find_px_def Let_def prod.case
      by (simp only: False if_False if_True refl uint_0_iff add_0_right sum_list.Cons sum_list.Nil
            add.assoc mult_eq_0_iff de_Morgan_conj not_not if_True if_False conj_assoc disj_assoc One_nat_def nat.simps zero_neq_one one_neq_zero)
  qed
qed


lemma clear_rows_cols:
  "m_rows (foldl (\<lambda>im px. assign im px 0) img pxs) = m_rows img \<and>
   m_cols (foldl (\<lambda>im px. assign im px 0) img pxs) = m_cols img"
  by (induction pxs arbitrary: img) (simp_all add: assign_def)

lemma thinReach_invariant:
  assumes "thinReach img0 n st"
  shows "m_rows (fst st) = m_rows img0 \<and> m_cols (fst st) = m_cols img0 \<and>
         length (bits (fst st)) = length (bits img0) \<and>
         fst (snd st) = odd n \<and>
         set (snd (snd st)) \<subseteq> set (section_px img0 1 1 (m_rows img0 - 2) (m_cols img0 - 2)) \<and>
         (\<forall>px \<in> set (section_px img0 1 1 (m_rows img0 - 2) (m_cols img0 - 2)).
            deref (fst st) px \<noteq> 0 \<longrightarrow> px \<in> set (snd (snd st)))"
  using assms
proof (induction rule: thinReach.induct)
  case first
  show ?case by simp
next
  case (again n img iteration onPixels img' onPixels' flaggedPixels)
  note b = again.hyps(2)
  have on': "onPixels' = filter (\<lambda>p. \<not> (deref img p = 0)) onPixels"
    by (rule thinBody_facts(1) [OF b])
  have im: "img' = foldl (\<lambda>im p. assign im p 0) img flaggedPixels"
    by (rule thinBody_facts(3) [OF b])
  have mono: "\<And>px. deref img' px \<noteq> 0 \<Longrightarrow> deref img px \<noteq> 0"
    by (rule thinBody_monotone [OF b])
  from again.IH show ?case
    by (auto simp: on' im clear_rows_cols bits_length_clear dest: mono [unfolded im])
qed

lemma thinReach_thinLoop:
  assumes "thinReach img0 n st"
  shows "thinImage img0 = thinLoop (fst st) (fst (snd st)) (snd (snd st))"
  using assms
proof (induction rule: thinReach.induct)
  case first
  show ?case by (simp add: thinImage_def)
next
  case (again n img iteration onPixels img' onPixels' flaggedPixels)
  have "thinLoop img iteration onPixels = thinLoop img' (\<not> iteration) onPixels'"
    using again.hyps(2,3) by simp
  with again.IH show ?case by simp
qed

lemma thinLoop_last_pass:
  assumes "thinReach img0 n (img, iteration, onPixels)"
  shows "\<exists>m imgL itL onL onL'. n \<le> m \<and> thinReach img0 m (imgL, itL, onL) \<and>
           thinBody imgL itL onL = (thinLoop img iteration onPixels, onL', [])"
  using assms
proof (induction img iteration onPixels arbitrary: n rule: thinLoop.induct)
  case (1 img iteration onPixels)
  obtain img' onPixels' flaggedPixels
    where b: "thinBody img iteration onPixels = (img', onPixels', flaggedPixels)"
    by (cases "thinBody img iteration onPixels") auto
  show ?case
  proof (cases "flaggedPixels = []")
    case True
    with b have "thinBody img iteration onPixels = (thinLoop img iteration onPixels, onPixels', [])"
      by simp
    with "1.prems" show ?thesis by blast
  next
    case False
    have r: "thinReach img0 (Suc n) (img', \<not> iteration, onPixels')"
      using "1.prems" b False by (rule thinReach.again)
    from "1.IH" [OF b [symmetric] refl False r]
    obtain m imgL itL onL onL' where m: "Suc n \<le> m" "thinReach img0 m (imgL, itL, onL)"
      "thinBody imgL itL onL = (thinLoop img' (\<not> iteration) onPixels', onL', [])"
      by blast
    have "thinLoop img iteration onPixels = thinLoop img' (\<not> iteration) onPixels'"
      using b False by simp
    with m have "n \<le> m \<and> thinReach img0 m (imgL, itL, onL) \<and>
                 thinBody imgL itL onL = (thinLoop img iteration onPixels, onL', [])"
      by simp
    then show ?thesis by blast
  qed
qed

text \<open>
  C1. In every pass of the thinner (pass \<open>n\<close>, counted from 0, is
  sub-iteration \<open>n mod 2\<close>, and \<^verbatim>\<open>iteration\<close> is true exactly in the odd
  passes), an interior on pixel is flagged if and only if \<open>A = 1\<close>,
  \<open>2 \<le> B \<le> 6\<close>, \<open>m1 = 0\<close> and \<open>m2 = 0\<close>, all read from the image as it
  is before the pass; only interior on pixels are flagged; and the image
  after the pass is the image before it with exactly the flagged pixels
  cleared. The passes are those of \<^verbatim>\<open>thinImage\<close>: the loop of
  \<open>thinImage img0\<close> goes through the state at the head of the pass, it
  returns the image after the pass when the pass flagged nothing and makes
  the next pass otherwise, and \<open>thinImage img0\<close> is the image after the last
  pass, the one that flags nothing.
\<close>

theorem thinImage_flag_rule:
  assumes reach: "thinReach img0 n (img, iteration, onPixels)"
    and body: "thinBody img iteration onPixels = (img', onPixels', flaggedPixels)"
  shows "(\<forall>r c. interior img r c \<and> pixelAt img r c \<noteq> 0 \<longrightarrow>
            (find_px img r c \<in> set flaggedPixels \<longleftrightarrow> zs_flag img (n mod 2) r c)) \<and>
         (\<forall>px \<in> set flaggedPixels.
            \<exists>r c. interior img r c \<and> pixelAt img r c \<noteq> 0 \<and> px = find_px img r c) \<and>
         (\<forall>px. deref img' px = (if px \<in> set flaggedPixels then 0 else deref img px)) \<and>
         m_rows img' = m_rows img \<and> m_cols img' = m_cols img \<and>
         length (bits img') = length (bits img) \<and>
         iteration = odd n \<and>
         thinImage img0 = thinLoop img iteration onPixels \<and>
         thinLoop img iteration onPixels =
           (if flaggedPixels = [] then img' else thinLoop img' (\<not> iteration) onPixels') \<and>
         (\<exists>m itL onL onL'. n \<le> m \<and> thinReach img0 m (thinImage img0, itL, onL) \<and>
            thinBody (thinImage img0) itL onL = (thinImage img0, onL', []))"
proof -
  note inv = thinReach_invariant [OF reach, simplified]
  have rows: "m_rows img = m_rows img0" and cols: "m_cols img = m_cols img0"
    and it: "iteration = odd n"
    and sub: "set onPixels \<subseteq> set (section_px img0 1 1 (m_rows img0 - 2) (m_cols img0 - 2))"
    and sup: "\<And>px. px \<in> set (section_px img0 1 1 (m_rows img0 - 2) (m_cols img0 - 2)) \<Longrightarrow>
                deref img px \<noteq> 0 \<Longrightarrow> px \<in> set onPixels"
    using inv by auto
  have on': "onPixels' = filter (\<lambda>p. \<not> (deref img p = 0)) onPixels"
    by (rule thinBody_facts(1) [OF body])
  have fl: "flaggedPixels = filter (thinFlag img iteration) onPixels'"
    by (rule thinBody_facts(2) [OF body])
  have im: "img' = foldl (\<lambda>im p. assign im p 0) img flaggedPixels"
    by (rule thinBody_facts(3) [OF body])
  have sub_eq: "(if iteration then 1 else 0) = n mod 2"
    using it by (auto simp: odd_iff_mod_2_eq_one)
  have a: "find_px img r c \<in> set flaggedPixels \<longleftrightarrow> zs_flag img (n mod 2) r c"
    if int: "interior img r c" and on: "pixelAt img r c \<noteq> 0" for r c
  proof -
    have d: "deref img (find_px img r c) \<noteq> 0"
      using on by (auto simp: pixelAt_def find_px_def)
    have "find_px img r c \<in> set (section_px img0 1 1 (m_rows img0 - 2) (m_cols img0 - 2))"
    proof -
      have "1 \<le> r \<and> r < 1 + (m_rows img0 - 2) \<and> 1 \<le> c \<and> c < 1 + (m_cols img0 - 2)"
        using int by (simp add: interior_def rows cols)
      then show ?thesis
        unfolding set_section_px find_px_def cols by blast
    qed
    then have "find_px img r c \<in> set onPixels'"
      using d by (simp add: on' sup)
    then have "find_px img r c \<in> set flaggedPixels \<longleftrightarrow> thinFlag img iteration (find_px img r c)"
      by (simp add: fl)
    also have "\<dots> \<longleftrightarrow> zs_flag img (if iteration then 1 else 0) r c"
      using int by (intro thinFlag_zs_flag) (auto simp: interior_def)
    finally show ?thesis by (simp only: sub_eq)
  qed
  have b: "\<exists>r c. interior img r c \<and> pixelAt img r c \<noteq> 0 \<and> px = find_px img r c"
    if "px \<in> set flaggedPixels" for px
  proof -
    from that have p: "px \<in> set onPixels" and d: "deref img px \<noteq> 0"
      by (auto simp: fl on')
    from p sub obtain r c where "px = m_cols img0 * r + c" "1 \<le> r" "r < 1 + (m_rows img0 - 2)"
      "1 \<le> c" "c < 1 + (m_cols img0 - 2)"
      unfolding set_section_px by auto
    with d have "interior img r c \<and> pixelAt img r c \<noteq> 0 \<and> px = find_px img r c"
      by (auto simp: interior_def pixelAt_def find_px_def rows cols uint_0_iff)
    then show ?thesis by blast
  qed
  have pass: "(\<forall>r c. interior img r c \<and> pixelAt img r c \<noteq> 0 \<longrightarrow>
            (find_px img r c \<in> set flaggedPixels \<longleftrightarrow> zs_flag img (n mod 2) r c)) \<and>
         (\<forall>px \<in> set flaggedPixels.
            \<exists>r c. interior img r c \<and> pixelAt img r c \<noteq> 0 \<and> px = find_px img r c) \<and>
         (\<forall>px. deref img' px = (if px \<in> set flaggedPixels then 0 else deref img px)) \<and>
         m_rows img' = m_rows img \<and> m_cols img' = m_cols img \<and>
         length (bits img') = length (bits img) \<and>
         iteration = odd n"
    using a b by (simp add: im deref_clear clear_rows_cols bits_length_clear it)
  have thr: "thinImage img0 = thinLoop img iteration onPixels"
    using thinReach_thinLoop [OF reach] by simp
  have step: "thinLoop img iteration onPixels =
           (if flaggedPixels = [] then img' else thinLoop img' (\<not> iteration) onPixels')"
    using body by simp
  from thinLoop_last_pass [OF reach]
  obtain m imgL itL onL onL' where m: "n \<le> m" "thinReach img0 m (imgL, itL, onL)"
    "thinBody imgL itL onL = (thinLoop img iteration onPixels, onL', [])"
    by blast
  have "thinLoop img iteration onPixels = imgL"
    using thinBody_facts(3) [OF m(3)] by simp
  with m thr have "n \<le> m \<and> thinReach img0 m (thinImage img0, itL, onL) \<and>
            thinBody (thinImage img0) itL onL = (thinImage img0, onL', [])"
    by simp
  then have fin: "\<exists>m itL onL onL'. n \<le> m \<and> thinReach img0 m (thinImage img0, itL, onL) \<and>
            thinBody (thinImage img0) itL onL = (thinImage img0, onL', [])"
    by blast
  from pass thr step fin show ?thesis by (intro conjI) blast+
qed

theorem thinImage_flag_rule_witness:
  "thinBody \<lparr>m_rows = 3, m_cols = 3, bits = [1,1,0, 0,1,0, 0,0,0]\<rparr> False [4]
     = (\<lparr>m_rows = 3, m_cols = 3, bits = [1,1,0, 0,0,0, 0,0,0]\<rparr>, [4], [4]) \<and>
   interior \<lparr>m_rows = 3, m_cols = 3, bits = [1,1,0, 0,1,0, 0,0,0]\<rparr> 1 1 \<and>
   pixelAt \<lparr>m_rows = 3, m_cols = 3, bits = [1,1,0, 0,1,0, 0,0,0]\<rparr> 1 1 \<noteq> 0 \<and>
   find_px \<lparr>m_rows = 3, m_cols = 3, bits = [1,1,0, 0,1,0, 0,0,0]\<rparr> 1 1 \<in> set [4] \<and>
   zs_flag \<lparr>m_rows = 3, m_cols = 3, bits = [1,1,0, 0,1,0, 0,0,0]\<rparr> 0 1 1 \<and>
   thinImage \<lparr>m_rows = 3, m_cols = 3, bits = [1,1,0, 0,1,0, 0,0,0]\<rparr>
     = \<lparr>m_rows = 3, m_cols = 3, bits = [1,1,0, 0,0,0, 0,0,0]\<rparr>"
proof -
  let ?I = "\<lparr>m_rows = 3, m_cols = 3, bits = [1,1,0, 0,1,0, 0,0,0]\<rparr>"
  let ?I' = "\<lparr>m_rows = 3, m_cols = 3, bits = [1,1,0, 0,0,0, 0,0,0]\<rparr>"
  have s: "section_px ?I 1 1 (m_rows ?I - 2) (m_cols ?I - 2) = [4]" by code_simp
  have r: "thinReach ?I 0 (?I, False, [4])"
    using thinReach.first [of ?I] by (simp only: s)
  have b: "thinBody ?I False [4] = (?I', [4], [4])" by code_simp
  have i: "interior ?I 1 1" by code_simp
  have p: "pixelAt ?I 1 1 \<noteq> 0" by code_simp
  have f: "find_px ?I 1 1 \<in> set [4]" by code_simp
  have ne: "[4::int] \<noteq> []" by simp
  have l: "thinLoop ?I' True [4] = ?I'" by code_simp
  note th = thinImage_flag_rule [OF r b]
  from th i p f have z: "zs_flag ?I (0 mod 2) 1 1"
    by blast
  from th have "thinImage ?I = thinLoop ?I False [4]"
    and "thinLoop ?I False [4] = (if [4::int] = [] then ?I' else thinLoop ?I' (\<not> False) [4])"
    by blast+
  then have "thinImage ?I = ?I'"
    by (simp only: ne if_False not_False_eq_True l)
  with z show ?thesis using b i p f by simp
qed

section \<open>The leaf segment fitter (\<^verbatim>\<open>PolylineFitting::fitSegments\<close>)\<close>

text \<open>
  \<^verbatim>\<open>std::find_if(first, last, p)\<close> on a vector, with iterators as positions:
  the first position in \<open>[first, fin)\<close> whose element satisfies \<open>p\<close>, or
  \<open>fin\<close>.
\<close>

function find_if :: "'a list \<Rightarrow> nat \<Rightarrow> nat \<Rightarrow> ('a \<Rightarrow> bool) \<Rightarrow> nat" where
  "find_if xs first fin p =
     (if first < fin then (if p (xs ! first) then first else find_if xs (Suc first) fin p)
      else fin)"
  by pat_completeness auto
termination
  by (relation "measure (\<lambda>(xs, first, fin, p). fin - first)") auto

declare find_if.simps [simp del]

lemma find_if_le: "find_if xs first fin p \<le> fin"
  by (induction xs first fin p rule: find_if.induct) (subst find_if.simps, simp)

lemma find_if_ge: "first \<le> fin \<Longrightarrow> first \<le> find_if xs first fin p"
proof (induction xs first fin p rule: find_if.induct)
  case (1 xs first fin p)
  show ?case
  proof (cases "first < fin \<and> \<not> p (xs ! first)")
    case True
    then have "Suc first \<le> find_if xs (Suc first) fin p"
      by (intro "1.IH") auto
    with True show ?thesis by (subst find_if.simps) simp
  next
    case False
    with "1.prems" show ?thesis by (subst find_if.simps) auto
  qed
qed

lemma find_if_sat: "find_if xs first fin p < fin \<Longrightarrow> p (xs ! find_if xs first fin p)"
proof (induction xs first fin p rule: find_if.induct)
  case (1 xs first fin p)
  show ?case
  proof (cases "first < fin")
    case False
    with "1.prems" show ?thesis by (subst (asm) find_if.simps) simp
  next
    case lt: True
    show ?thesis
    proof (cases "p (xs ! first)")
      case True
      with lt show ?thesis by (subst find_if.simps) simp
    next
      case False
      with lt have eq: "find_if xs first fin p = find_if xs (Suc first) fin p"
        by (subst find_if.simps) simp
      with "1.IH" [OF lt False] "1.prems" show ?thesis by simp
    qed
  qed
qed

lemma find_if_stuck: "fin \<le> first \<Longrightarrow> find_if xs first fin p = fin"
  by (subst find_if.simps) simp

text \<open>
  The frame of the section, clockwise from the top left corner: the four
  \<^verbatim>\<open>section\<close> calls and the four \<^verbatim>\<open>insert\<close> calls, the last two through
  reverse iterators.
\<close>

definition frame_px :: "BitImage \<Rightarrow> int \<Rightarrow> int \<Rightarrow> int \<Rightarrow> int \<Rightarrow> int list" where
  "frame_px img r0 c0 rows cols =
     (let r1 = r0 + rows - 1;
          c1 = c0 + cols - 1;
          topRow = section_px img r0 c0 1 (cols - 1);
          rightCol = section_px img r0 c1 (rows - 1) 1;
          bottomRow = section_px img r1 (c0 + 1) 1 (cols - 1);
          leftCol = section_px img (r0 + 1) c0 (rows - 1) 1
      in topRow @ rightCol @ rev bottomRow @ rev leftCol)"

text \<open>
  The \<^verbatim>\<open>do ... while (pxOn != pixelsFrame.end())\<close> loop. \<open>pxOff\<close> and \<open>pxOn\<close>
  are positions in \<^verbatim>\<open>pixelsFrame\<close>; \<open>length pixelsFrame\<close> is \<^verbatim>\<open>end()\<close>.
  Every pass reads \<^verbatim>\<open>*(pxOn + (pxOff - pxOn) / 2)\<close> before it tests
  \<^verbatim>\<open>pxOn != end()\<close>; the position of that read is appended to \<open>reads\<close>, so
  that the result is the segments and the positions of the frame vector
  the loop dereferenced for \<^verbatim>\<open>pxMid\<close>. In the pass that ends the loop the
  value read is not used.
\<close>

function scanFrame ::
  "BitImage \<Rightarrow> int list \<Rightarrow> int \<Rightarrow> nat \<Rightarrow> int list list \<Rightarrow> nat list \<Rightarrow> int list list \<times> nat list" where
  "scanFrame img pixelsFrame pxCenter pxOff segments reads =
     (let pxOn = find_if pixelsFrame pxOff (length pixelsFrame) (\<lambda>px. deref img px \<noteq> 0);
          pxOff' = find_if pixelsFrame pxOn (length pixelsFrame) (\<lambda>px. deref img px = 0);
          at = pxOn + (pxOff' - pxOn) div 2;
          pxMid = pixelsFrame ! at
      in if pxOn \<noteq> length pixelsFrame
         then scanFrame img pixelsFrame pxCenter pxOff' (segments @ [[pxMid, pxCenter]]) (reads @ [at])
         else (segments, reads @ [at]))"
  by pat_completeness auto

lemma scan_advances:
  assumes on: "pxOn = find_if xs pxOff (length xs) (\<lambda>px. deref img px \<noteq> 0)"
    and ne: "pxOn \<noteq> length xs"
  shows "pxOff \<le> pxOn \<and> pxOn < find_if xs pxOn (length xs) (\<lambda>px. deref img px = 0)"
proof -
  have lt: "pxOn < length xs"
    using ne find_if_le [of xs pxOff "length xs"] on by (simp add: le_neq_implies_less)
  have "pxOff \<le> length xs"
  proof (rule ccontr)
    assume "\<not> pxOff \<le> length xs"
    then have "pxOn = length xs" unfolding on by (intro find_if_stuck) simp
    with ne show False by simp
  qed
  then have ge: "pxOff \<le> pxOn" unfolding on by (rule find_if_ge)
  have "deref img (xs ! pxOn) \<noteq> 0"
    using find_if_sat [of xs pxOff "length xs" "\<lambda>px. deref img px \<noteq> 0"] lt on by simp
  then have "find_if xs pxOn (length xs) (\<lambda>px. deref img px = 0)
             = find_if xs (Suc pxOn) (length xs) (\<lambda>px. deref img px = 0)"
    using lt by (subst find_if.simps) simp
  moreover have "Suc pxOn \<le> find_if xs (Suc pxOn) (length xs) (\<lambda>px. deref img px = 0)"
    using lt by (intro find_if_ge) simp
  ultimately show ?thesis using ge by simp
qed

termination scanFrame
proof (relation "measure (\<lambda>(img, pixelsFrame, pxCenter, pxOff, segments, reads).
                   length pixelsFrame - pxOff)", goal_cases)
  case 1
  show ?case by simp
next
  case (2 img pixelsFrame pxCenter pxOff segments reads pxOn pxOff' at pxMid)
  from scan_advances [OF 2(1) 2(5)] 2(2)
  have "pxOff < pxOff'" by simp
  moreover have "pxOff' \<le> length pixelsFrame"
    unfolding 2(2) by (rule find_if_le)
  ultimately show ?case by simp
qed

declare scanFrame.simps [simp del]

text \<open>
  \<^verbatim>\<open>std::sort(first, last, comp)\<close> leaves the order of elements that \<^verbatim>\<open>comp\<close>
  does not separate unspecified, so the fitter takes the sort as a
  parameter, \<open>std_sort cmp xs\<close>. \<open>sort_postcondition\<close> is what the standard
  promises for a comparator that compares a key with \<^verbatim>\<open><\<close>: the result is
  a permutation of the range, and \<^verbatim>\<open>comp\<close> puts no element before one that
  stands earlier. \<open>insertion_sort\<close> is one sort that keeps the promise
  (lemma \<open>insertion_sort_postcondition\<close>); it is the one the evaluations
  below run.
\<close>

definition sort_postcondition :: "((int \<Rightarrow> int \<Rightarrow> bool) \<Rightarrow> int list \<Rightarrow> int list) \<Rightarrow> bool" where
  "sort_postcondition std_sort =
     (\<forall>(key :: int \<Rightarrow> int) xs.
        mset (std_sort (\<lambda>a b. key a < key b) xs) = mset xs \<and>
        sorted_wrt (\<lambda>a b. \<not> key b < key a) (std_sort (\<lambda>a b. key a < key b) xs))"

fun insert_sorted :: "('a \<Rightarrow> 'a \<Rightarrow> bool) \<Rightarrow> 'a \<Rightarrow> 'a list \<Rightarrow> 'a list" where
  "insert_sorted cmp x [] = [x]"
| "insert_sorted cmp x (y # ys) =
     (if cmp x y then x # y # ys else y # insert_sorted cmp x ys)"

definition insertion_sort :: "('a \<Rightarrow> 'a \<Rightarrow> bool) \<Rightarrow> 'a list \<Rightarrow> 'a list" where
  "insertion_sort cmp xs = foldr (insert_sorted cmp) xs []"

lemma mset_insert_sorted: "mset (insert_sorted cmp x ys) = add_mset x (mset ys)"
  by (induction ys) simp_all

lemma mset_insertion_sort: "mset (insertion_sort cmp xs) = mset xs"
  unfolding insertion_sort_def by (induction xs) (simp_all add: mset_insert_sorted)

lemma set_insert_sorted: "set (insert_sorted cmp x ys) = insert x (set ys)"
  using mset_insert_sorted [of cmp x ys, THEN arg_cong, of set_mset] by simp

lemma sorted_insert_sorted:
  fixes key :: "'a \<Rightarrow> int"
  assumes "sorted_wrt (\<lambda>a b. \<not> key b < key a) ys"
  shows "sorted_wrt (\<lambda>a b. \<not> key b < key a) (insert_sorted (\<lambda>a b. key a < key b) x ys)"
  using assms
proof (induction ys)
  case Nil
  show ?case by simp
next
  case (Cons y ys)
  show ?case
  proof (cases "key x < key y")
    case True
    with Cons.prems show ?thesis by auto
  next
    case False
    with Cons show ?thesis by (auto simp: set_insert_sorted)
  qed
qed

lemma sorted_insertion_sort:
  fixes key :: "'a \<Rightarrow> int"
  shows "sorted_wrt (\<lambda>a b. \<not> key b < key a) (insertion_sort (\<lambda>a b. key a < key b) xs)"
  unfolding insertion_sort_def by (induction xs) (simp_all add: sorted_insert_sorted)

lemma insertion_sort_postcondition: "sort_postcondition insertion_sort"
  unfolding sort_postcondition_def by (simp add: mset_insertion_sort sorted_insertion_sort)

text \<open>
  The comparator of the \<^verbatim>\<open>std::sort\<close> call orders the canvas by Manhattan
  distance to \<^verbatim>\<open>pxCenter\<close>; \<open>manhattan\<close> is its key. \<open>estimateLoop\<close> is the
  \<^verbatim>\<open>for (auto px : pxsCanvas)\<close> loop with its \<^verbatim>\<open>break\<close>; \<^verbatim>\<open>pxIntersection\<close>
  is \<open>None\<close> while it is the default-constructed iterator.
\<close>

definition manhattan :: "BitImage \<Rightarrow> int \<Rightarrow> int \<Rightarrow> int" where
  "manhattan img pxCenter px =
     (let coordsA = coords img px; coordsC = coords img pxCenter
      in \<bar>fst coordsA - fst coordsC\<bar> + \<bar>snd coordsA - snd coordsC\<bar>)"

fun estimateLoop :: "BitImage \<Rightarrow> int list \<Rightarrow> int \<Rightarrow> int option \<Rightarrow> int \<times> int option" where
  "estimateLoop img [] maxConv pxIntersection = (maxConv, pxIntersection)"
| "estimateLoop img (px # pxs) maxConv pxIntersection =
     (let (r, c) = coords img px;
          pixels = section_px img (r - 1) (c - 1) 3 3;
          conv = int (length (filter (\<lambda>pxx. deref img pxx \<noteq> 0) pixels));
          pxIntersection' = (if conv > maxConv then Some px else pxIntersection);
          maxConv' = max maxConv conv
      in if maxConv' \<ge> 5 then (maxConv', pxIntersection')
         else estimateLoop img pxs maxConv' pxIntersection')"

text \<open>
  The first half of \<^verbatim>\<open>fitSegments\<close>, up to the end of the \<^verbatim>\<open>do ... while\<close>
  loop: \<open>None\<close> is the early return for a frame that is all on or all off.
  \<^verbatim>\<open>std::rotate\<close> moves the elements; the iterator \<^verbatim>\<open>pxOff\<close> keeps its
  position in the vector, so the loop starts at position \<open>pxOff\<close> of the
  rotated frame.
\<close>

definition frameScan ::
  "BitImage \<Rightarrow> int \<Rightarrow> int \<Rightarrow> int \<Rightarrow> int \<Rightarrow> (int list \<times> int \<times> int list list \<times> nat list) option" where
  "frameScan img r0 c0 rows cols =
     (let pixelsFrame = frame_px img r0 c0 rows cols;
          pxOff = find_if pixelsFrame 0 (length pixelsFrame) (\<lambda>px. deref img px = 0);
          pxOn = find_if pixelsFrame 0 (length pixelsFrame) (\<lambda>px. deref img px \<noteq> 0)
      in if pxOff = length pixelsFrame \<or> pxOn = length pixelsFrame then None
         else
           let rotated = drop pxOff pixelsFrame @ take pxOff pixelsFrame;
               pxCenter = find_px img (r0 + rows sdiv 2) (c0 + cols sdiv 2);
               (segments, reads) = scanFrame img rotated pxCenter pxOff [] []
           in Some (rotated, pxCenter, segments, reads))"

definition estimateIntersection ::
  "((int \<Rightarrow> int \<Rightarrow> bool) \<Rightarrow> int list \<Rightarrow> int list) \<Rightarrow>
   BitImage \<Rightarrow> int \<Rightarrow> int \<Rightarrow> int \<Rightarrow> int \<Rightarrow> int \<Rightarrow> int option" where
  "estimateIntersection std_sort img r0 c0 rows cols pxCenter =
     (let pxsCanvas = std_sort (\<lambda>pxA pxB. manhattan img pxCenter pxA < manhattan img pxCenter pxB)
                        (section_px img (r0 + 1) (c0 + 1) (rows - 2) (cols - 2))
      in snd (estimateLoop img pxsCanvas (- 1) None))"

text \<open>
  \<^verbatim>\<open>fitSegments\<close>. The result is \<open>None\<close> when a segment would receive the
  default-constructed \<^verbatim>\<open>pxIntersection\<close> (an empty canvas), which the
  source stores and later passes to \<^verbatim>\<open>coords\<close>.
\<close>

definition fitSegments ::
  "((int \<Rightarrow> int \<Rightarrow> bool) \<Rightarrow> int list \<Rightarrow> int list) \<Rightarrow>
   BitImage \<Rightarrow> int \<Rightarrow> int \<Rightarrow> int \<Rightarrow> int \<Rightarrow> int list list option" where
  "fitSegments std_sort img r0 c0 rows cols =
     (case frameScan img r0 c0 rows cols of
        None \<Rightarrow> Some []
      | Some (rotated, pxCenter, segments, reads) \<Rightarrow>
          if length segments = 2
          then Some [[hd (hd segments), hd (last segments)]]
          else
            let pxIntersection = estimateIntersection std_sort img r0 c0 rows cols pxCenter
            in if segments = [] then Some []
               else case pxIntersection of
                      None \<Rightarrow> None
                    | Some p \<Rightarrow>
                        Some (map (\<lambda>polyline. polyline[length polyline - 1 := p]) segments))"

lemma scanFrame_last_read:
  "last (snd (scanFrame img pixelsFrame pxCenter pxOff segments reads)) = length pixelsFrame"
proof (induction img pixelsFrame pxCenter pxOff segments reads rule: scanFrame.induct)
  case (1 img pixelsFrame pxCenter pxOff segments reads)
  define pxOn where "pxOn = find_if pixelsFrame pxOff (length pixelsFrame) (\<lambda>px. deref img px \<noteq> 0)"
  define pxOff' where "pxOff' = find_if pixelsFrame pxOn (length pixelsFrame) (\<lambda>px. deref img px = 0)"
  show ?case
  proof (cases "pxOn = length pixelsFrame")
    case True
    then have "pxOff' = length pixelsFrame"
      unfolding pxOff'_def by (intro find_if_stuck) simp
    with True show ?thesis
      by (subst scanFrame.simps)
         (simp add: pxOn_def [symmetric] pxOff'_def [symmetric] Let_def find_if_stuck)
  next
    case False
    then show ?thesis
      using "1.IH" [OF pxOn_def pxOff'_def refl refl False]
      by (subst scanFrame.simps) (simp add: pxOn_def [symmetric] pxOff'_def [symmetric] Let_def)
  qed
qed

text \<open>
  In the words of the specification: the maximal runs of on pixels of a
  frame, each as (position of its first pixel, length), and the pixel of
  each run at offset \<open>length div 2\<close> from its first pixel.
\<close>

fun onRuns :: "nat \<Rightarrow> nat option \<Rightarrow> bool list \<Rightarrow> (nat \<times> nat) list" where
  "onRuns i None [] = []"
| "onRuns i (Some s) [] = [(s, i - s)]"
| "onRuns i None (b # bs) = (if b then onRuns (Suc i) (Some i) bs else onRuns (Suc i) None bs)"
| "onRuns i (Some s) (b # bs) =
     (if b then onRuns (Suc i) (Some s) bs else (s, i - s) # onRuns (Suc i) None bs)"

definition runMidpoints :: "BitImage \<Rightarrow> int list \<Rightarrow> int list" where
  "runMidpoints img frame =
     map (\<lambda>(s, l). frame ! (s + l div 2)) (onRuns 0 None (map (\<lambda>px. deref img px \<noteq> 0) frame))"

text \<open>
  When the scan starts at a position up to which it has skipped no on
  pixel, it emits one segment for every maximal run of on pixels from that
  position on, from the pixel at offset \<open>length div 2\<close> of the run to the
  centre (lemma \<open>scanFrame_runs\<close>). When the first pixel of the frame is
  off, \<^verbatim>\<open>std::rotate\<close> changes nothing, the scan starts at position 0 and
  the segments are those of all the maximal runs of the frame (lemma
  \<open>frameScan_first_off\<close>).
\<close>

lemma find_if_none_before:
  "first \<le> j \<Longrightarrow> j < find_if xs first fin p \<Longrightarrow> \<not> p (xs ! j)"
proof (induction xs first fin p rule: find_if.induct)
  case (1 xs first fin p)
  show ?case
  proof (cases "first < fin \<and> \<not> p (xs ! first)")
    case False
    with "1.prems" show ?thesis by (subst (asm) find_if.simps) (auto split: if_splits)
  next
    case True
    then have eq: "find_if xs first fin p = find_if xs (Suc first) fin p"
      by (subst find_if.simps) simp
    show ?thesis
    proof (cases "j = first")
      case True
      with \<open>first < fin \<and> \<not> p (xs ! first)\<close> show ?thesis by simp
    next
      case False
      with "1.prems" eq have "Suc first \<le> j" "j < find_if xs (Suc first) fin p" by simp_all
      with "1.IH" True show ?thesis by simp
    qed
  qed
qed

lemma onRuns_skip:
  assumes "\<forall>j. i \<le> j \<and> j < k \<longrightarrow> \<not> bs ! j" "i \<le> k" "k \<le> length bs"
  shows "onRuns i None (drop i bs) = onRuns k None (drop k bs)"
  using assms
proof (induction "k - i" arbitrary: i)
  case 0
  then show ?case by simp
next
  case (Suc n)
  then have lt: "i < k" by simp
  then have "drop i bs = bs ! i # drop (Suc i) bs"
    using Suc.prems(3) by (simp add: Cons_nth_drop_Suc)
  moreover have "\<not> bs ! i" using Suc.prems(1) lt by simp
  moreover have "onRuns (Suc i) None (drop (Suc i) bs) = onRuns k None (drop k bs)"
    using Suc.hyps(2) Suc.prems lt by (intro Suc.hyps(1)) auto
  ultimately show ?case by simp
qed

lemma onRuns_run:
  assumes "\<forall>j. i \<le> j \<and> j < k \<longrightarrow> bs ! j" "i \<le> k" "k \<le> length bs"
  shows "onRuns i (Some s) (drop i bs) = onRuns k (Some s) (drop k bs)"
  using assms
proof (induction "k - i" arbitrary: i)
  case 0
  then show ?case by simp
next
  case (Suc n)
  then have lt: "i < k" by simp
  then have "drop i bs = bs ! i # drop (Suc i) bs"
    using Suc.prems(3) by (simp add: Cons_nth_drop_Suc)
  moreover have "bs ! i" using Suc.prems(1) lt by simp
  moreover have "onRuns (Suc i) (Some s) (drop (Suc i) bs) = onRuns k (Some s) (drop k bs)"
    using Suc.hyps(2) Suc.prems lt by (intro Suc.hyps(1)) auto
  ultimately show ?case by simp
qed

lemma onRuns_next:
  assumes on: "\<forall>j. s \<le> j \<and> j < k \<longrightarrow> bs ! j" and sk: "s < k" "k \<le> length bs"
    and stop: "k = length bs \<or> \<not> bs ! k"
  shows "onRuns s None (drop s bs) = (s, k - s) # onRuns k None (drop k bs)"
proof -
  have "drop s bs = bs ! s # drop (Suc s) bs" using sk by (simp add: Cons_nth_drop_Suc)
  moreover have "bs ! s" using on sk by simp
  ultimately have "onRuns s None (drop s bs) = onRuns (Suc s) (Some s) (drop (Suc s) bs)"
    by simp
  also have "\<dots> = onRuns k (Some s) (drop k bs)"
    using on sk by (intro onRuns_run) auto
  also have "\<dots> = (s, k - s) # onRuns k None (drop k bs)"
  proof (cases "k = length bs")
    case True
    then show ?thesis by simp
  next
    case False
    with stop sk have nk: "\<not> bs ! k" and lk: "k < length bs" by simp_all
    from lk have "drop k bs = bs ! k # drop (Suc k) bs" by (simp only: Cons_nth_drop_Suc)
    with nk have "drop k bs = False # drop (Suc k) bs" by simp
    then show ?thesis by simp
  qed
  finally show ?thesis .
qed

lemma scanFrame_runs:
  assumes "pxOff \<le> length pixelsFrame"
  shows "fst (scanFrame img pixelsFrame pxCenter pxOff segments reads) =
           segments @ map (\<lambda>(s, l). [pixelsFrame ! (s + l div 2), pxCenter])
             (onRuns pxOff None (drop pxOff (map (\<lambda>px. deref img px \<noteq> 0) pixelsFrame)))"
  using assms
proof (induction img pixelsFrame pxCenter pxOff segments reads rule: scanFrame.induct)
  case (1 img pixelsFrame pxCenter pxOff segments reads)
  define bs where "bs = map (\<lambda>px. deref img px \<noteq> 0) pixelsFrame"
  define n where "n = length pixelsFrame"
  define pxOn where "pxOn = find_if pixelsFrame pxOff n (\<lambda>px. deref img px \<noteq> 0)"
  define pxOff' where "pxOff' = find_if pixelsFrame pxOn n (\<lambda>px. deref img px = 0)"
  have len: "length bs = n" by (simp add: bs_def n_def)
  have nth: "bs ! j = (deref img (pixelsFrame ! j) \<noteq> 0)" if "j < n" for j
    using that by (simp add: bs_def n_def)
  have on_le: "pxOn \<le> n" unfolding pxOn_def by (rule find_if_le)
  have on_ge: "pxOff \<le> pxOn" unfolding pxOn_def using "1.prems" by (intro find_if_ge) (simp add: n_def)
  have skip: "onRuns pxOff None (drop pxOff bs) = onRuns pxOn None (drop pxOn bs)"
  proof (rule onRuns_skip)
    show "\<forall>j. pxOff \<le> j \<and> j < pxOn \<longrightarrow> \<not> bs ! j"
    proof (intro allI impI)
      fix j assume j: "pxOff \<le> j \<and> j < pxOn"
      then have "\<not> deref img (pixelsFrame ! j) \<noteq> 0"
        using find_if_none_before [of pxOff j pixelsFrame n "\<lambda>px. deref img px \<noteq> 0"]
        by (simp add: pxOn_def)
      with j on_le show "\<not> bs ! j" by (simp add: nth)
    qed
    show "pxOff \<le> pxOn" by (rule on_ge)
    show "pxOn \<le> length bs" using on_le len by simp
  qed
  show ?case
  proof (cases "pxOn = n")
    case True
    then have "fst (scanFrame img pixelsFrame pxCenter pxOff segments reads) = segments"
      by (subst scanFrame.simps) (simp add: Let_def pxOn_def n_def)
    moreover have "onRuns pxOff None (drop pxOff bs) = []"
      using skip True len by simp
    ultimately show ?thesis by (simp add: bs_def)
  next
    case False
    then have lt: "pxOn < n" using on_le by simp
    from scan_advances [of pxOn pixelsFrame pxOff img] False
    have adv: "pxOn < pxOff'" by (simp add: pxOn_def pxOff'_def n_def)
    have off_le: "pxOff' \<le> n" unfolding pxOff'_def by (rule find_if_le)
    have run: "onRuns pxOn None (drop pxOn bs) = (pxOn, pxOff' - pxOn) # onRuns pxOff' None (drop pxOff' bs)"
    proof (rule onRuns_next)
      show "\<forall>j. pxOn \<le> j \<and> j < pxOff' \<longrightarrow> bs ! j"
      proof (intro allI impI)
        fix j assume j: "pxOn \<le> j \<and> j < pxOff'"
        then have "\<not> deref img (pixelsFrame ! j) = 0"
          using find_if_none_before [of pxOn j pixelsFrame n "\<lambda>px. deref img px = 0"]
          by (simp add: pxOff'_def)
        with j off_le show "bs ! j" by (simp add: nth)
      qed
      show "pxOn < pxOff'" by (rule adv)
      show "pxOff' \<le> length bs" using off_le len by simp
      show "pxOff' = length bs \<or> \<not> bs ! pxOff'"
      proof (cases "pxOff' = n")
        case True
        then show ?thesis by (simp add: len)
      next
        case False
        with off_le have l: "pxOff' < n" by simp
        then have "deref img (pixelsFrame ! pxOff') = 0"
          using find_if_sat [of pixelsFrame pxOn n "\<lambda>px. deref img px = 0"]
          by (simp add: pxOff'_def)
        with l show ?thesis by (simp add: nth)
      qed
    qed
    have ih: "fst (scanFrame img pixelsFrame pxCenter pxOff'
                (segments @ [[pixelsFrame ! (pxOn + (pxOff' - pxOn) div 2), pxCenter]])
                (reads @ [pxOn + (pxOff' - pxOn) div 2])) =
           (segments @ [[pixelsFrame ! (pxOn + (pxOff' - pxOn) div 2), pxCenter]]) @
             map (\<lambda>(s, l). [pixelsFrame ! (s + l div 2), pxCenter])
               (onRuns pxOff' None (drop pxOff' bs))"
      unfolding bs_def
      using False off_le
      by (intro "1.IH" [OF pxOn_def [unfolded n_def] pxOff'_def [unfolded n_def] refl refl])
         (simp_all add: n_def)
    have "fst (scanFrame img pixelsFrame pxCenter pxOff segments reads) =
          fst (scanFrame img pixelsFrame pxCenter pxOff'
                (segments @ [[pixelsFrame ! (pxOn + (pxOff' - pxOn) div 2), pxCenter]])
                (reads @ [pxOn + (pxOff' - pxOn) div 2]))"
      using False
      by (subst scanFrame.simps)
         (simp add: Let_def pxOn_def [unfolded n_def, symmetric]
            pxOff'_def [unfolded n_def, symmetric] n_def)
    with ih skip run show ?thesis by (simp add: bs_def)
  qed
qed

lemma frameScan_first_off:
  assumes scan: "frameScan img r0 c0 rows cols = Some (rotated, pxCenter, segments, reads)"
    and off: "deref img (hd (frame_px img r0 c0 rows cols)) = 0"
  shows "rotated = frame_px img r0 c0 rows cols \<and> map hd segments = runMidpoints img rotated"
proof -
  define fr where "fr = frame_px img r0 c0 rows cols"
  define pxOff where "pxOff = find_if fr 0 (length fr) (\<lambda>px. deref img px = 0)"
  define pxOn where "pxOn = find_if fr 0 (length fr) (\<lambda>px. deref img px \<noteq> 0)"
  have ne: "pxOff \<noteq> length fr \<and> pxOn \<noteq> length fr"
    using scan unfolding frameScan_def Let_def fr_def [symmetric] pxOff_def [symmetric] pxOn_def [symmetric]
    by (auto split: if_splits)
  have "fr \<noteq> []"
  proof
    assume "fr = []"
    then have "pxOff = length fr" unfolding pxOff_def by (subst find_if.simps) simp
    with ne show False by simp
  qed
  then have "deref img (fr ! 0) = 0" "0 < length fr"
    using off by (simp_all add: fr_def hd_conv_nth)
  then have z: "pxOff = 0" unfolding pxOff_def by (subst find_if.simps) simp
  have res: "rotated = fr" "segments = fst (scanFrame img fr pxCenter 0 [] [])"
    using scan ne z
    unfolding frameScan_def Let_def fr_def [symmetric] pxOff_def [symmetric] pxOn_def [symmetric]
    by (auto split: if_splits prod.splits)
  have "segments = map (\<lambda>(s, l). [fr ! (s + l div 2), pxCenter])
                     (onRuns 0 None (map (\<lambda>px. deref img px \<noteq> 0) fr))"
    unfolding res(2) by (subst scanFrame_runs) simp_all
  then have "map hd segments = runMidpoints img fr"
    by (simp add: runMidpoints_def comp_def case_prod_unfold)
  with res(1) show ?thesis by (simp add: fr_def)
qed

text \<open>
  The two cases of the second half of \<^verbatim>\<open>fitSegments\<close>: two segments are
  collapsed into one polyline; every other number of segments, also one,
  takes the branch of the intersection estimate.
\<close>

lemma fitSegments_two_segments:
  assumes "frameScan img r0 c0 rows cols = Some (rotated, pxCenter, [s1, s2], reads)"
  shows "fitSegments std_sort img r0 c0 rows cols = Some [[hd s1, hd s2]]"
  using assms by (simp add: fitSegments_def)

lemma fitSegments_other_segments:
  assumes "frameScan img r0 c0 rows cols = Some (rotated, pxCenter, segments, reads)"
    and "length segments \<noteq> 2" and "segments \<noteq> []"
    and "estimateIntersection std_sort img r0 c0 rows cols pxCenter = Some p"
  shows "fitSegments std_sort img r0 c0 rows cols =
           Some (map (\<lambda>polyline. polyline[length polyline - 1 := p]) segments)"
  using assms by (simp add: fitSegments_def)

text \<open>
  On the 4 x 4 section \<^verbatim>\<open>0110 / 0110 / 0000 / 0000\<close> the canvas is the
  pixels 5, 6, 9 and 10, at Manhattan distances 2, 1, 1 and 0 from the
  centre 10: a sort that meets \<open>sort_postcondition\<close> leaves them in the
  order 10, 6, 9, 5 or in the order 10, 9, 6, 5.
\<close>

lemma sorted_canvas_cases:
  fixes key :: "int \<Rightarrow> int"
  assumes m: "mset ys = mset [5, 6, 9, 10 :: int]"
    and srt: "sorted_wrt (\<lambda>a b. \<not> key b < key a) ys"
    and k: "key 5 = 2" "key 6 = 1" "key 9 = 1" "key 10 = 0"
  shows "ys = [10, 6, 9, 5] \<or> ys = [10, 9, 6, 5]"
proof -
  have "length ys = length [5, 6, 9, 10 :: int]" using m by (rule mset_eq_length)
  then have "length ys = 4" by simp
  then obtain a b c d where ys: "ys = [a, b, c, d]"
    by (auto simp: length_Suc_conv numeral_eq_Suc)
  have "distinct [5, 6, 9, 10 :: int]" by simp
  then have d: "distinct ys" using m by (simp only: mset_eq_imp_distinct_iff [OF m])
  have s: "set ys = set [5, 6, 9, 10 :: int]" using m by (rule mset_eq_setD)
  have le: "key a \<le> key b" "key b \<le> key c" "key c \<le> key d"
    using srt unfolding ys by auto
  have el: "a \<in> {5, 6, 9, 10}" "b \<in> {5, 6, 9, 10}" "c \<in> {5, 6, 9, 10}" "d \<in> {5, 6, 9, 10}"
    using s by (auto simp: ys)
  have ka: "key x \<le> 2 \<and> 0 \<le> key x \<and> (key x = 2 \<longrightarrow> x = 5) \<and> (key x = 0 \<longrightarrow> x = 10)"
    if "x \<in> {5, 6, 9, 10}" for x
    using that k by auto
  have "5 \<in> {a, b, c, d}" "10 \<in> {a, b, c, d}" "6 \<in> {a, b, c, d}" "9 \<in> {a, b, c, d}"
    using s by (auto simp: ys)
  then have five: "5 = a \<or> 5 = b \<or> 5 = c \<or> 5 = d" and ten: "10 = a \<or> 10 = b \<or> 10 = c \<or> 10 = d"
    and six: "6 = a \<or> 6 = b \<or> 6 = c \<or> 6 = d" and nine: "9 = a \<or> 9 = b \<or> 9 = c \<or> 9 = d"
    by simp_all
  have "2 \<le> key d" using five le k(1) by auto
  then have d5: "d = 5" using ka [OF el(4)] by auto
  have "key a \<le> 0" using ten le k(4) by auto
  then have a10: "a = 10" using ka [OF el(1)] by auto
  from six nine d5 a10 have "(b = 6 \<and> c = 9) \<or> (b = 9 \<and> c = 6)" by auto
  with d5 a10 show ?thesis by (auto simp: ys)
qed

text \<open>
  C3 (the code differs). On the 4 x 4 section
  \<^verbatim>\<open>0110 / 0110 / 0000 / 0000\<close> the frame scan produces one segment, from
  the frame pixel (0,2) to the centre (2,2), that is \<open>[2, 10]\<close>; the
  intersection estimate is applied all the same, and the result is the
  segment from (0,2) to (1,2), that is \<open>[2, 6]\<close>, whatever order the sort
  leaves the pixels at the same distance in. The estimate runs whenever the
  number of segments is not 2, not only for 3 or more.
\<close>

theorem fitSegments_estimates_for_one_segment:
  assumes "sort_postcondition std_sort"
  shows "map_option (\<lambda>(rotated, pxCenter, segments, reads). segments)
     (frameScan \<lparr>m_rows = 4, m_cols = 4, bits = [0,1,1,0, 0,1,1,0, 0,0,0,0, 0,0,0,0]\<rparr> 0 0 4 4) = Some [[2, 10]] \<and>
   fitSegments std_sort \<lparr>m_rows = 4, m_cols = 4, bits = [0,1,1,0, 0,1,1,0, 0,0,0,0, 0,0,0,0]\<rparr> 0 0 4 4 = Some [[2, 6]]"
proof -
  let ?I = "\<lparr>m_rows = 4, m_cols = 4, bits = [0,1,1,0, 0,1,1,0, 0,0,0,0, 0,0,0,0]\<rparr>"
  define ys where "ys = std_sort (\<lambda>pxA pxB. manhattan ?I 10 pxA < manhattan ?I 10 pxB) [5, 6, 9, 10]"
  have f: "frameScan ?I 0 0 4 4 = Some ([0,1,2,3,7,11,15,14,13,12,8,4], 10, [[2, 10]], [2, 12])"
    by code_simp
  have c: "section_px ?I (0 + 1) (0 + 1) (4 - 2) (4 - 2) = [5, 6, 9, 10]" by code_simp
  have k: "manhattan ?I 10 5 = 2" "manhattan ?I 10 6 = 1" "manhattan ?I 10 9 = 1"
    "manhattan ?I 10 10 = 0" by code_simp+
  have "mset ys = mset [5, 6, 9, 10 :: int]"
    and "sorted_wrt (\<lambda>a b. \<not> manhattan ?I 10 b < manhattan ?I 10 a) ys"
    using assms unfolding sort_postcondition_def ys_def by blast+
  then have "ys = [10, 6, 9, 5] \<or> ys = [10, 9, 6, 5]"
    using k by (rule sorted_canvas_cases)
  moreover have "snd (estimateLoop ?I [10, 6, 9, 5] (- 1) None) = Some 6" by code_simp
  moreover have "snd (estimateLoop ?I [10, 9, 6, 5] (- 1) None) = Some 6" by code_simp
  ultimately have "snd (estimateLoop ?I ys (- 1) None) = Some 6" by auto
  then have e: "estimateIntersection std_sort ?I 0 0 4 4 10 = Some 6"
    unfolding estimateIntersection_def c Let_def ys_def .
  show ?thesis
    unfolding fitSegments_def f by (simp add: e)
qed

theorem fitSegments_estimates_for_one_segment_witness:
  "map_option (\<lambda>(rotated, pxCenter, segments, reads). segments)
     (frameScan \<lparr>m_rows = 4, m_cols = 4, bits = [0,1,1,0, 0,1,1,0, 0,0,0,0, 0,0,0,0]\<rparr> 0 0 4 4) = Some [[2, 10]] \<and>
   fitSegments insertion_sort \<lparr>m_rows = 4, m_cols = 4, bits = [0,1,1,0, 0,1,1,0, 0,0,0,0, 0,0,0,0]\<rparr> 0 0 4 4 = Some [[2, 6]]"
  using insertion_sort_postcondition by (rule fitSegments_estimates_for_one_segment)

text \<open>
  C4 (the code differs). On the 3 x 3 section \<^verbatim>\<open>110 / 001 / 000\<close> the
  rotated frame has two maximal runs of on pixels, with midpoints (1,2) and
  (0,1), that is \<open>[5, 1]\<close>; the scan starts at position 2 of the rotated
  frame, skips the run at position 1 and emits the one segment that starts
  at (0,1). The first pixel of this frame is on; lemma
  \<open>frameScan_first_off\<close> covers the frames whose first pixel is off.
\<close>

theorem fitSegments_skips_a_run:
  "map_option (\<lambda>(rotated, pxCenter, segments, reads). (map hd segments, runMidpoints \<lparr>m_rows = 3, m_cols = 3, bits = [1,1,0, 0,0,1, 0,0,0]\<rparr> rotated))
     (frameScan \<lparr>m_rows = 3, m_cols = 3, bits = [1,1,0, 0,0,1, 0,0,0]\<rparr> 0 0 3 3) = Some ([1], [5, 1])"
  by code_simp

text \<open>
  C10 (the code differs). On the 3 x 3 section \<^verbatim>\<open>010 / 010 / 010\<close> the frame
  vector has 8 elements, at positions 0 to 7; the loop reads positions 1, 5
  and 8 for \<^verbatim>\<open>pxMid\<close>: the last read is at \<^verbatim>\<open>pixelsFrame.end()\<close>. By lemma
  \<open>scanFrame_last_read\<close> the last pass of every scan does so.
\<close>

theorem fitSegments_reads_frame_end:
  "map_option (\<lambda>(rotated, pxCenter, segments, reads). (length rotated, reads))
     (frameScan \<lparr>m_rows = 3, m_cols = 3, bits = [0,1,0, 0,1,0, 0,1,0]\<rparr> 0 0 3 3) = Some (8, [1, 5, 8])"
  by code_simp

section \<open>The polyline merger (\<^verbatim>\<open>PolylineFitting::mergePolylines\<close>)\<close>

text \<open>
  A polyline is a list of locators. \<^verbatim>\<open>srcPolylines\<close> is a vector and
  \<^verbatim>\<open>srcEnd\<close> a position in it: the sources not yet merged are the first
  \<open>srcEnd\<close> elements. \<^verbatim>\<open>front()\<close> and \<^verbatim>\<open>back()\<close> are \<open>hd\<close> and \<open>last\<close>;
  on an empty polyline they are undefined in the source and unspecified
  here, so the theorem is about non-empty polylines.

  \<open>mergeDest\<close> is the body of the \<^verbatim>\<open>for (auto& dest : destPolylines)\<close> loop:
  the four searches in the order of the source, each followed by the
  \<^verbatim>\<open>insert\<close>, the \<^verbatim>\<open>iter_swap(srcIt, --srcEnd)\<close> and the \<^verbatim>\<open>continue\<close>.
\<close>

definition iter_swap :: "'a list \<Rightarrow> nat \<Rightarrow> nat \<Rightarrow> 'a list" where
  "iter_swap xs i j = xs[i := xs ! j, j := xs ! i]"

definition mergeDest :: "'a list \<Rightarrow> 'a list list \<Rightarrow> nat \<Rightarrow> 'a list \<times> 'a list list \<times> nat" where
  "mergeDest dest srcPolylines srcEnd =
     (let srcIt = find_if srcPolylines 0 srcEnd (\<lambda>src. hd dest = hd src) in
      if srcIt \<noteq> srcEnd
      then (rev (tl (srcPolylines ! srcIt)) @ dest,
            iter_swap srcPolylines srcIt (srcEnd - 1), srcEnd - 1)
      else
      let srcIt = find_if srcPolylines 0 srcEnd (\<lambda>src. hd dest = last src) in
      if srcIt \<noteq> srcEnd
      then (butlast (srcPolylines ! srcIt) @ dest,
            iter_swap srcPolylines srcIt (srcEnd - 1), srcEnd - 1)
      else
      let srcIt = find_if srcPolylines 0 srcEnd (\<lambda>src. last dest = hd src) in
      if srcIt \<noteq> srcEnd
      then (dest @ tl (srcPolylines ! srcIt),
            iter_swap srcPolylines srcIt (srcEnd - 1), srcEnd - 1)
      else
      let srcIt = find_if srcPolylines 0 srcEnd (\<lambda>src. last dest = last src) in
      if srcIt \<noteq> srcEnd
      then (dest @ rev (butlast (srcPolylines ! srcIt)),
            iter_swap srcPolylines srcIt (srcEnd - 1), srcEnd - 1)
      else (dest, srcPolylines, srcEnd))"

text \<open>The \<^verbatim>\<open>for\<close> loop over the destination polylines, in order.\<close>

fun mergeLoop :: "'a list list \<Rightarrow> 'a list list \<Rightarrow> nat \<Rightarrow> 'a list list \<times> 'a list list \<times> nat" where
  "mergeLoop [] srcPolylines srcEnd = ([], srcPolylines, srcEnd)"
| "mergeLoop (dest # rest) srcPolylines srcEnd =
     (case mergeDest dest srcPolylines srcEnd of
        (dest', srcPolylines', srcEnd') \<Rightarrow>
          (case mergeLoop rest srcPolylines' srcEnd' of
             (rest', srcPolylines'', srcEnd'') \<Rightarrow> (dest' # rest', srcPolylines'', srcEnd'')))"

definition mergePolylines :: "'a list list \<Rightarrow> 'a list list \<Rightarrow> 'a list list" where
  "mergePolylines destPolylines srcPolylines =
     (if destPolylines = [] then srcPolylines
      else if srcPolylines = [] then destPolylines
      else case mergeLoop destPolylines srcPolylines (length srcPolylines) of
             (destPolylines', srcPolylines', srcEnd) \<Rightarrow>
               destPolylines' @ take srcEnd srcPolylines')"


lemma swap_take_mset:
  assumes "i < e" "e \<le> length xs"
  shows "mset (take (e - 1) (iter_swap xs i (e - 1))) + {#xs ! i#} = mset (take e xs)"
proof -
  define ys where "ys = take (e - 1) xs"
  have e: "take e xs = ys @ [xs ! (e - 1)]"
    using assms take_Suc_conv_app_nth [of "e - 1" xs] by (simp add: ys_def)
  show ?thesis
  proof (cases "i = e - 1")
    case True
    then show ?thesis by (simp add: iter_swap_def e ys_def)
  next
    case False
    with assms have lt: "i < e - 1" by simp
    then have il: "i < length ys" using assms by (simp add: ys_def)
    have "take (e - 1) (iter_swap xs i (e - 1)) = take (e - 1) (xs[i := xs ! (e - 1)])"
      by (simp add: iter_swap_def)
    then have t: "take (e - 1) (iter_swap xs i (e - 1)) = ys[i := xs ! (e - 1)]"
      by (simp only: take_update_swap ys_def)
    have n: "ys ! i = xs ! i" using lt by (simp add: ys_def)
    have m: "xs ! i \<in># mset ys"
      using nth_mem [OF il] n by simp
    have "mset (ys[i := xs ! (e - 1)]) + {#xs ! i#}
          = add_mset (xs ! (e - 1)) (mset ys - {#xs ! i#}) + {#xs ! i#}"
      by (simp only: mset_update [OF il] n)
    also have "\<dots> = add_mset (xs ! (e - 1)) (mset ys)"
      using m by simp
    finally show ?thesis by (simp only: t e) simp
  qed
qed

lemma find_if_zero_sat:
  "find_if xs 0 e p \<noteq> e \<Longrightarrow> find_if xs 0 e p < e \<and> p (xs ! find_if xs 0 e p)"
  using find_if_le [of xs 0 e p] find_if_sat [of xs 0 e p] by simp

lemma mergeDest_cases:
  assumes "mergeDest dest src srcEnd = (dest', src', srcEnd')"
  shows "(dest' = dest \<and> src' = src \<and> srcEnd' = srcEnd) \<or>
         (\<exists>i < srcEnd. srcEnd' = srcEnd - 1 \<and> src' = iter_swap src i (srcEnd - 1) \<and>
            ((hd dest = hd (src ! i) \<and> dest' = rev (tl (src ! i)) @ dest) \<or>
             (hd dest = last (src ! i) \<and> dest' = butlast (src ! i) @ dest) \<or>
             (last dest = hd (src ! i) \<and> dest' = dest @ tl (src ! i)) \<or>
             (last dest = last (src ! i) \<and> dest' = dest @ rev (butlast (src ! i)))))"
  using assms unfolding mergeDest_def Let_def
  by (auto split: if_splits dest!: find_if_zero_sat)


lemma concat_mset_remove:
  assumes "mset ys + {#s#} = mset xs"
  shows "mset (concat ys) + mset s = mset (concat xs)"
proof -
  have c: "mset (concat zs) = \<Sum>\<^sub># (image_mset mset (mset zs))" for zs :: "'a list list"
    by (induction zs) simp_all
  have "mset xs = add_mset s (mset ys)" using assms by simp
  then show ?thesis by (simp add: c)
qed

lemma mergeDest_conserve:
  assumes md: "mergeDest dest src srcEnd = (dest', src', srcEnd')"
    and le: "srcEnd \<le> length src"
    and ne: "\<forall>s \<in> set (take srcEnd src). s \<noteq> []"
    and dne: "dest \<noteq> []"
  shows "length src' = length src \<and> srcEnd' \<le> srcEnd \<and> dest' \<noteq> [] \<and>
         mset (take srcEnd' src') \<subseteq># mset (take srcEnd src) \<and>
         (\<exists>X. mset dest' + mset (concat (take srcEnd' src')) + X
                = mset dest + mset (concat (take srcEnd src)) \<and>
              size X = srcEnd - srcEnd' \<and>
              (\<forall>x \<in># X. (x = hd dest \<or> x = last dest) \<and>
                         (\<exists>s \<in> set (take srcEnd src). x = hd s \<or> x = last s)))"
proof -
  from mergeDest_cases [OF md] consider
    (none) "dest' = dest" "src' = src" "srcEnd' = srcEnd"
  | (merged) i where "i < srcEnd" "srcEnd' = srcEnd - 1"
      "src' = iter_swap src i (srcEnd - 1)"
      "hd dest = hd (src ! i) \<and> dest' = rev (tl (src ! i)) @ dest \<or>
       hd dest = last (src ! i) \<and> dest' = butlast (src ! i) @ dest \<or>
       last dest = hd (src ! i) \<and> dest' = dest @ tl (src ! i) \<or>
       last dest = last (src ! i) \<and> dest' = dest @ rev (butlast (src ! i))"
    by blast
  then show ?thesis
  proof cases
    case none
    then show ?thesis using dne
      by (intro conjI exI [of _ "{#}"]) simp_all
  next
    case (merged i)
    note i = merged(1) and e' = merged(2) and s' = merged(3) and how = merged(4)
  define s where "s = src ! i"
  have act: "mset (take srcEnd' src') + {#s#} = mset (take srcEnd src)"
    unfolding e' s' s_def using i le by (rule swap_take_mset)
  have mem: "s \<in> set (take srcEnd src)"
    using act by (metis mset_add union_single_eq_member set_mset_mset add_mset_add_single)
  then have sne: "s \<noteq> []" using ne by blast
  have "add_mset (hd s) (mset (tl s)) = mset s"
    using sne by (cases s) simp_all
  moreover have "add_mset (last s) (mset (butlast s)) = mset s"
    using sne by (cases s rule: rev_cases) simp_all
  ultimately have hl: "add_mset (hd s) (mset (tl s)) = mset s"
    "add_mset (last s) (mset (butlast s)) = mset s" by simp_all
  have cc: "mset (concat (take srcEnd' src')) + mset s = mset (concat (take srcEnd src))"
    using act by (rule concat_mset_remove)
  from how obtain x where x: "mset dest' + {#x#} = mset dest + mset s"
    "x = hd dest \<or> x = last dest" "x = hd s \<or> x = last s"
  proof (elim disjE conjE)
    assume "hd dest = hd (src ! i)" "dest' = rev (tl (src ! i)) @ dest"
    then show ?thesis using hl by (intro that [of "hd s"]) (simp_all add: s_def)
  next
    assume "hd dest = last (src ! i)" "dest' = butlast (src ! i) @ dest"
    then show ?thesis using hl by (intro that [of "last s"]) (simp_all add: s_def)
  next
    assume "last dest = hd (src ! i)" "dest' = dest @ tl (src ! i)"
    then show ?thesis using hl by (intro that [of "hd s"]) (simp_all add: s_def)
  next
    assume "last dest = last (src ! i)" "dest' = dest @ rev (butlast (src ! i))"
    then show ?thesis using hl by (intro that [of "last s"]) (simp_all add: s_def)
  qed
  have d'ne: "dest' \<noteq> []" using how dne by auto
  have len: "length src' = length src" by (simp add: s' iter_swap_def)
  have sub: "mset (take srcEnd' src') \<subseteq># mset (take srcEnd src)"
    using act by (metis mset_subset_eq_add_left)
  have "mset dest' + mset (concat (take srcEnd' src')) + {#x#}
        = mset dest + mset (concat (take srcEnd src))"
    using x(1) cc by (metis (no_types, lifting) add.assoc add.commute)
  moreover have "size {#x#} = srcEnd - srcEnd'" using i e' by simp
  moreover have "\<forall>y \<in># {#x#}. (y = hd dest \<or> y = last dest) \<and>
                   (\<exists>s \<in> set (take srcEnd src). y = hd s \<or> y = last s)"
    using x(2,3) mem by auto
  ultimately have "\<exists>X. mset dest' + mset (concat (take srcEnd' src')) + X
                = mset dest + mset (concat (take srcEnd src)) \<and>
              size X = srcEnd - srcEnd' \<and>
              (\<forall>x \<in># X. (x = hd dest \<or> x = last dest) \<and>
                         (\<exists>s \<in> set (take srcEnd src). x = hd s \<or> x = last s))"
    by blast
  moreover have "srcEnd' \<le> srcEnd" using e' by simp
  ultimately show ?thesis using len d'ne sub by blast
  qed
qed


lemma mergeLoop_conserve:
  assumes "mergeLoop dests src srcEnd = (dests', src', srcEnd')"
    and "srcEnd \<le> length src"
    and "\<forall>s \<in> set (take srcEnd src). s \<noteq> []"
    and "\<forall>d \<in> set dests. d \<noteq> []"
  shows "length dests' = length dests \<and> length src' = length src \<and> srcEnd' \<le> srcEnd \<and>
         mset (take srcEnd' src') \<subseteq># mset (take srcEnd src) \<and>
         (\<exists>X. mset (concat dests') + mset (concat (take srcEnd' src')) + X
                = mset (concat dests) + mset (concat (take srcEnd src)) \<and>
              size X = srcEnd - srcEnd' \<and>
              (\<forall>x \<in># X. (\<exists>d \<in> set dests. x = hd d \<or> x = last d) \<and>
                         (\<exists>s \<in> set (take srcEnd src). x = hd s \<or> x = last s)))"
  using assms
proof (induction dests arbitrary: src srcEnd dests' src' srcEnd')
  case Nil
  then show ?case by (intro conjI exI [of _ "{#}"]) simp_all
next
  case (Cons d rest)
  obtain d' src1 e1 where md: "mergeDest d src srcEnd = (d', src1, e1)"
    by (cases "mergeDest d src srcEnd") auto
  obtain rest' src2 e2 where ml: "mergeLoop rest src1 e1 = (rest', src2, e2)"
    by (cases "mergeLoop rest src1 e1") auto
  from Cons.prems(1) md ml have res: "dests' = d' # rest'" "src' = src2" "srcEnd' = e2"
    by simp_all
  have dne: "d \<noteq> []" using Cons.prems(4) by simp
  note step = mergeDest_conserve [OF md Cons.prems(2) Cons.prems(3) dne]
  from step have len1: "length src1 = length src" and le1: "e1 \<le> srcEnd"
    and sub1: "mset (take e1 src1) \<subseteq># mset (take srcEnd src)" by blast+
  from step obtain X1 where X1:
    "mset d' + mset (concat (take e1 src1)) + X1 = mset d + mset (concat (take srcEnd src))"
    "size X1 = srcEnd - e1"
    "\<forall>x \<in># X1. (x = hd d \<or> x = last d) \<and> (\<exists>s \<in> set (take srcEnd src). x = hd s \<or> x = last s)"
    by blast
  have set1: "set (take e1 src1) \<subseteq> set (take srcEnd src)"
    using set_mset_mono [OF sub1] by simp
  have p2: "e1 \<le> length src1" using le1 len1 Cons.prems(2) by simp
  have p3: "\<forall>s \<in> set (take e1 src1). s \<noteq> []" using set1 Cons.prems(3) by blast
  have p4: "\<forall>d \<in> set rest. d \<noteq> []" using Cons.prems(4) by simp
  note ih = Cons.IH [OF ml p2 p3 p4]
  from ih have len2: "length rest' = length rest" "length src2 = length src1" and le2: "e2 \<le> e1"
    and sub2: "mset (take e2 src2) \<subseteq># mset (take e1 src1)" by blast+
  from ih obtain X2 where X2:
    "mset (concat rest') + mset (concat (take e2 src2)) + X2
       = mset (concat rest) + mset (concat (take e1 src1))"
    "size X2 = e1 - e2"
    "\<forall>x \<in># X2. (\<exists>d \<in> set rest. x = hd d \<or> x = last d) \<and>
                (\<exists>s \<in> set (take e1 src1). x = hd s \<or> x = last s)"
    by blast
  have "mset (concat (d' # rest')) + mset (concat (take e2 src2)) + (X1 + X2)
        = mset d' + X1 + (mset (concat rest') + mset (concat (take e2 src2)) + X2)"
    by (simp add: ac_simps)
  also have "\<dots> = mset d' + X1 + (mset (concat rest) + mset (concat (take e1 src1)))"
    by (simp only: X2(1))
  also have "\<dots> = (mset d' + mset (concat (take e1 src1)) + X1) + mset (concat rest)"
    by (simp add: ac_simps)
  also have "\<dots> = mset (concat (d # rest)) + mset (concat (take srcEnd src))"
    by (simp only: X1(1)) (simp add: ac_simps)
  finally have eq: "mset (concat (d' # rest')) + mset (concat (take e2 src2)) + (X1 + X2)
        = mset (concat (d # rest)) + mset (concat (take srcEnd src))" .
  have sz: "size (X1 + X2) = srcEnd - e2" using X1(2) X2(2) le1 le2 by simp
  have ends: "\<forall>x \<in># X1 + X2. (\<exists>d \<in> set (d # rest). x = hd d \<or> x = last d) \<and>
                (\<exists>s \<in> set (take srcEnd src). x = hd s \<or> x = last s)"
  proof
    fix x assume "x \<in># X1 + X2"
    then consider "x \<in># X1" | "x \<in># X2" by auto
    then show "(\<exists>d \<in> set (d # rest). x = hd d \<or> x = last d) \<and>
                (\<exists>s \<in> set (take srcEnd src). x = hd s \<or> x = last s)"
    proof cases
      case 1
      with X1(3) show ?thesis by auto
    next
      case 2
      with X2(3) have a: "\<exists>d \<in> set rest. x = hd d \<or> x = last d"
        and "\<exists>s \<in> set (take e1 src1). x = hd s \<or> x = last s" by blast+
      with set1 have "\<exists>s \<in> set (take srcEnd src). x = hd s \<or> x = last s" by blast
      with a show ?thesis by auto
    qed
  qed
  have "\<exists>X. mset (concat dests') + mset (concat (take srcEnd' src')) + X
                = mset (concat (d # rest)) + mset (concat (take srcEnd src)) \<and>
              size X = srcEnd - srcEnd' \<and>
              (\<forall>x \<in># X. (\<exists>d \<in> set (d # rest). x = hd d \<or> x = last d) \<and>
                         (\<exists>s \<in> set (take srcEnd src). x = hd s \<or> x = last s))"
    unfolding res using eq sz ends by blast
  moreover have "length dests' = length (d # rest)" by (simp add: res len2)
  moreover have "length src' = length src" by (simp add: res len2 len1)
  moreover have "srcEnd' \<le> srcEnd" using le1 le2 by (simp add: res)
  moreover have "mset (take srcEnd' src') \<subseteq># mset (take srcEnd src)"
    unfolding res using sub2 sub1 by (rule subset_mset.order_trans)
  ultimately show ?case by blast
qed


text \<open>
  C2. For all sets \<open>D\<close> and \<open>S\<close> of non-empty polylines, the output of the
  merger is \<open>D' @ U\<close>, where \<open>D'\<close> has one polyline for each polyline of \<open>D\<close>
  and \<open>U\<close> are polylines of \<open>S\<close>, unchanged (the unmerged sources). The
  number of merges performed is the number of sources that are not in
  \<open>U\<close>, \<open>length S - length U\<close>. The locators of \<open>D\<close> and \<open>S\<close> together are,
  as a multiset, the locators of the output plus a multiset \<open>X\<close> with
  exactly one locator for each merge, and every locator of \<open>X\<close> is an end of
  a polyline of \<open>D\<close> and an end of a polyline of \<open>S\<close>.
\<close>

theorem mergePolylines_conserves:
  assumes ne: "\<forall>p \<in> set D \<union> set S. p \<noteq> []"
  shows "\<exists>D' U X. mergePolylines D S = D' @ U \<and> length D' = length D \<and>
           mset U \<subseteq># mset S \<and>
           mset (concat (mergePolylines D S)) + X = mset (concat D) + mset (concat S) \<and>
           size X = length S - length U \<and>
           (\<forall>x \<in># X. (\<exists>d \<in> set D. x = hd d \<or> x = last d) \<and>
                      (\<exists>s \<in> set S. x = hd s \<or> x = last s))"
proof (cases "D = [] \<or> S = []")
  case True
  then consider "D = []" | "D \<noteq> []" "S = []" by blast
  then show ?thesis
  proof cases
    case 1
    then show ?thesis
      by (intro exI [of _ "[]"] exI [of _ S] exI [of _ "{#}"]) (simp add: mergePolylines_def)
  next
    case 2
    then show ?thesis
      by (intro exI [of _ D] exI [of _ "[]"] exI [of _ "{#}"]) (simp add: mergePolylines_def)
  qed
next
  case False
  obtain D' S' e where ml: "mergeLoop D S (length S) = (D', S', e)"
    by (cases "mergeLoop D S (length S)") auto
  have res: "mergePolylines D S = D' @ take e S'"
    using False ml by (simp add: mergePolylines_def)
  have p3: "\<forall>s \<in> set (take (length S) S). s \<noteq> []" using ne by simp
  have p4: "\<forall>d \<in> set D. d \<noteq> []" using ne by simp
  note c = mergeLoop_conserve [OF ml le_refl p3 p4, simplified]
  from c have len: "length D' = length D" "length S' = length S" and le: "e \<le> length S"
    and sub: "mset (take e S') \<subseteq># mset S" by blast+
  from c obtain X where X:
    "mset (concat D') + mset (concat (take e S')) + X = mset (concat D) + mset (concat S)"
    "size X = length S - e"
    "\<forall>x \<in># X. (\<exists>d \<in> set D. x = hd d \<or> x = last d) \<and> (\<exists>s \<in> set S. x = hd s \<or> x = last s)"
    by blast
  have lu: "length (take e S') = e" using le len by simp
  show ?thesis
    apply (rule exI [of _ D'], rule exI [of _ "take e S'"], rule exI [of _ X])
    using res len sub X lu by simp
qed

theorem mergePolylines_conserves_witness:
  "mergePolylines [[1, 2, 3 :: int]] [[3, 4, 5 :: int]] = [[1, 2, 3, 4, 5]] \<and>
   (\<exists>D' U X. mergePolylines [[1, 2, 3 :: int]] [[3, 4, 5 :: int]] = D' @ U \<and>
      length D' = length [[1, 2, 3 :: int]] \<and>
      mset U \<subseteq># mset [[3, 4, 5 :: int]] \<and>
      mset (concat (mergePolylines [[1, 2, 3 :: int]] [[3, 4, 5 :: int]])) + X
        = mset (concat [[1, 2, 3 :: int]]) + mset (concat [[3, 4, 5 :: int]]) \<and>
      size X = length [[3, 4, 5 :: int]] - length U \<and>
      (\<forall>x \<in># X. (\<exists>d \<in> set [[1, 2, 3 :: int]]. x = hd d \<or> x = last d) \<and>
                 (\<exists>s \<in> set [[3, 4, 5 :: int]]. x = hd s \<or> x = last s)))"
proof -
  have h: "\<forall>p \<in> set [[1, 2, 3 :: int]] \<union> set [[3, 4, 5 :: int]]. p \<noteq> []" by simp
  have v: "mergePolylines [[1, 2, 3 :: int]] [[3, 4, 5 :: int]] = [[1, 2, 3, 4, 5]]" by code_simp
  show ?thesis by (rule conjI [OF v mergePolylines_conserves [OF h]])
qed

section \<open>The recursive tracer (\<^verbatim>\<open>PolylineFitting::fitPolylines\<close>, private overload)\<close>

text \<open>
  The lambda \<^verbatim>\<open>isEmpty\<close>, and the two limits the code uses:
  \<^verbatim>\<open>std::numeric_limits<int64_t>::max()\<close>, the first value of \<^verbatim>\<open>minOn\<close>, and
  \<^verbatim>\<open>std::numeric_limits<int32_t>::max()\<close>.
\<close>

definition isEmpty :: "BitImage \<Rightarrow> int list \<Rightarrow> bool" where
  "isEmpty img pixels = (\<not> list_ex (\<lambda>px. deref img px \<noteq> 0) pixels)"

definition INT64_MAX :: int where
  "INT64_MAX = 9223372036854775807"

definition INT32_MAX :: int where
  "INT32_MAX = 2147483647"

text \<open>
  \<^verbatim>\<open>static_cast<int32_t>(std::pow(-1, i)) * (i + 1) / 2\<close>: the power is 1 or -1,
  the product is divided by 2 with truncation.
\<close>

definition splitOffset :: "int \<Rightarrow> int" where
  "splitOffset i = ((if even i then 1 else - 1) * (i + 1)) sdiv 2"

text \<open>
  The \<^verbatim>\<open>for (auto i{0}; i < iMax; i++)\<close> loop, started with \<open>i = 0\<close>,
  \<open>bestSplit = -1\<close> and \<open>minOn = INT64_MAX\<close>. The state is \<^verbatim>\<open>bestSplit\<close> (the
  reference to \<^verbatim>\<open>rSplit\<close> or \<^verbatim>\<open>cSplit\<close>), \<^verbatim>\<open>minOn\<close> and \<^verbatim>\<open>i\<close>; the result is
  the state when the loop ends, so that after a \<^verbatim>\<open>break\<close> the counter is the
  index of the last candidate examined.
\<close>

function splitLoop ::
  "BitImage \<Rightarrow> int \<Rightarrow> int \<Rightarrow> int \<Rightarrow> int \<Rightarrow> int \<Rightarrow> int \<Rightarrow> int \<Rightarrow> int \<Rightarrow> int \<times> int \<times> int" where
  "splitLoop img r0 c0 rows cols iMax i bestSplit minOn =
     (if i < iMax
      then
        let offset = splitOffset i;
            splitCandidate = (if rows \<ge> cols then r0 + rows sdiv 2 + offset
                              else c0 + cols sdiv 2 + offset);
            pixels = (if rows \<ge> cols then section_px img splitCandidate c0 1 cols
                      else section_px img r0 splitCandidate rows 1);
            nOnPixels = int (length (filter (\<lambda>px. deref img px \<noteq> 0) pixels));
            bestSplit' = (if nOnPixels < minOn then splitCandidate else bestSplit);
            minOn' = min minOn nOnPixels
        in if minOn' = 0 then (bestSplit', minOn', i)
           else splitLoop img r0 c0 rows cols iMax (i + 1) bestSplit' minOn'
      else (bestSplit, minOn, i))"
  by pat_completeness auto
termination
  by (relation "measure (\<lambda>(img, r0, c0, rows, cols, iMax, i, bestSplit, minOn). nat (iMax - i))")
     auto

declare splitLoop.simps [simp del]

text \<open>
  The tracer returns the polylines and, as a second component, the sections
  it passed to \<^verbatim>\<open>fitSegments\<close>, in call order. \<open>mergeResults\<close> is the call of
  \<^verbatim>\<open>mergePolylines\<close> on the results of the two recursive calls; a result
  \<open>None\<close> of \<open>fitSegments\<close> is passed on. The recursion ends because it only
  goes on while \<^verbatim>\<open>iter < maxRecursions\<close>, with \<^verbatim>\<open>iter + 1\<close>. \<open>std_sort\<close> is the
  sort that \<open>fitSegments\<close> calls.
\<close>

definition mergeResults ::
  "int list list option \<times> (int \<times> int \<times> int \<times> int) list \<Rightarrow>
   int list list option \<times> (int \<times> int \<times> int \<times> int) list \<Rightarrow>
   int list list option \<times> (int \<times> int \<times> int \<times> int) list" where
  "mergeResults a b =
     (case (fst a, fst b) of
        (Some destPolylines, Some srcPolylines) \<Rightarrow> Some (mergePolylines destPolylines srcPolylines)
      | _ \<Rightarrow> None,
      snd a @ snd b)"

function fitPolylines_rec ::
  "((int \<Rightarrow> int \<Rightarrow> bool) \<Rightarrow> int list \<Rightarrow> int list) \<Rightarrow>
   BitImage \<Rightarrow> int \<Rightarrow> int \<Rightarrow> int \<Rightarrow> int \<Rightarrow> int \<Rightarrow> int \<Rightarrow> int \<Rightarrow>
   int list list option \<times> (int \<times> int \<times> int \<times> int) list" where
  "fitPolylines_rec std_sort img r0 c0 rows cols iter minSectionSize maxRecursions =
     (if isEmpty img (section_px img r0 c0 rows cols) then (Some [], [])
      else
        let minSplitSize = max minSectionSize 5 in
        if iter \<ge> maxRecursions \<or> (cols < minSplitSize \<and> rows < minSplitSize)
        then (fitSegments std_sort img r0 c0 rows cols, [(r0, c0, rows, cols)])
        else
          let iMax = (if rows \<ge> cols then rows - 4 else cols - 4);
              bestSplit = fst (splitLoop img r0 c0 rows cols iMax 0 (- 1) INT64_MAX);
              rSplit = (if rows \<ge> cols then bestSplit else - 1);
              cSplit = (if rows \<ge> cols then - 1 else bestSplit)
          in if bestSplit = rSplit
             then mergeResults
                    (fitPolylines_rec std_sort img r0 c0 (rSplit - r0 + 1) cols (iter + 1)
                       minSectionSize maxRecursions)
                    (fitPolylines_rec std_sort img rSplit c0 (r0 + rows - rSplit) cols (iter + 1)
                       minSectionSize maxRecursions)
             else mergeResults
                    (fitPolylines_rec std_sort img r0 c0 rows (cSplit - c0 + 1) (iter + 1)
                       minSectionSize maxRecursions)
                    (fitPolylines_rec std_sort img r0 cSplit rows (c0 + cols - cSplit) (iter + 1)
                       minSectionSize maxRecursions))"
  by pat_completeness auto
termination
  by (relation "measure (\<lambda>(std_sort, img, r0, c0, rows, cols, iter, minSectionSize, maxRecursions).
                  nat (maxRecursions - iter))") auto

declare fitPolylines_rec.simps [simp del]

section \<open>The entry point (\<^verbatim>\<open>PolylineFitting::fitPolylines\<close>, first overload)\<close>

text \<open>
  \<^verbatim>\<open>static_cast<size_t>\<close> of an \<^verbatim>\<open>int32_t\<close> and \<^verbatim>\<open>static_cast<int32_t>\<close> of a
  \<^verbatim>\<open>size_t\<close> (64 bits). The result of the entry point is the list of
  polylines as (row, column) pairs, the warnings given to \<^verbatim>\<open>logWarning\<close>,
  and the image as the call leaves it.
\<close>

definition size_t_of_int32 :: "int \<Rightarrow> nat" where
  "size_t_of_int32 x = unat (word_of_int x :: 64 word)"

definition int32_of_size_t :: "nat \<Rightarrow> int" where
  "int32_of_size_t n = sint (word_of_nat n :: 32 word)"

definition fitPolylines ::
  "((int \<Rightarrow> int \<Rightarrow> bool) \<Rightarrow> int list \<Rightarrow> int list) \<Rightarrow>
   BitImage \<Rightarrow> nat \<Rightarrow> nat \<Rightarrow> bool \<Rightarrow> (int \<times> int) list list option \<times> string list \<times> BitImage" where
  "fitPolylines std_sort img minSectionSize maxRecursions doThinning =
     (let minSize = 3 in
      if size_t_of_int32 (m_rows img) < minSize \<or> size_t_of_int32 (m_cols img) < minSize
      then (Some [],
            [''Impossible to fit polylines to an image smaller than minimum size of 3x3!''],
            img)
      else
        let img' = (if doThinning then thinImage img else img);
            pxPolylines =
              fst (fitPolylines_rec std_sort img' 0 0 (m_rows img') (m_cols img') 0
                     (int32_of_size_t (max minSectionSize minSize))
                     (if maxRecursions \<noteq> 0 then int32_of_size_t maxRecursions else INT32_MAX))
        in (map_option (map (map (coords img'))) pxPolylines, [], img'))"

section \<open>The split position\<close>

text \<open>
  The candidate line and the count of on pixels of pass \<open>i\<close> of the loop, as
  the loop body computes them.
\<close>

definition splitCand :: "int \<Rightarrow> int \<Rightarrow> int \<Rightarrow> int \<Rightarrow> int \<Rightarrow> int" where
  "splitCand r0 c0 rows cols i =
     (if rows \<ge> cols then r0 + rows sdiv 2 + splitOffset i else c0 + cols sdiv 2 + splitOffset i)"

definition splitCount :: "BitImage \<Rightarrow> int \<Rightarrow> int \<Rightarrow> int \<Rightarrow> int \<Rightarrow> int \<Rightarrow> int" where
  "splitCount img r0 c0 rows cols i =
     int (length (filter (\<lambda>px. deref img px \<noteq> 0)
       (if rows \<ge> cols then section_px img (splitCand r0 c0 rows cols i) c0 1 cols
        else section_px img r0 (splitCand r0 c0 rows cols i) rows 1)))"

lemma splitLoop_unfold:
  "splitLoop img r0 c0 rows cols iMax i bestSplit minOn =
     (if i < iMax
      then if min minOn (splitCount img r0 c0 rows cols i) = 0
           then (if splitCount img r0 c0 rows cols i < minOn then splitCand r0 c0 rows cols i
                 else bestSplit,
                 min minOn (splitCount img r0 c0 rows cols i), i)
           else splitLoop img r0 c0 rows cols iMax (i + 1)
                  (if splitCount img r0 c0 rows cols i < minOn then splitCand r0 c0 rows cols i
                   else bestSplit)
                  (min minOn (splitCount img r0 c0 rows cols i))
      else (bestSplit, minOn, i))"
  by (subst splitLoop.simps) (simp add: Let_def splitCand_def splitCount_def)

lemma splitLoop_invariant:
  fixes img :: BitImage and r0 c0 rows cols :: int
    and cnt :: "int \<Rightarrow> int" and cand :: "int \<Rightarrow> int"
  defines "cnt \<equiv> splitCount img r0 c0 rows cols" and "cand \<equiv> splitCand r0 c0 rows cols"
  assumes bound: "\<And>k. cnt k < INT64_MAX"
    and i: "0 \<le> i" "i \<le> iMax" "0 < iMax"
    and nz: "\<forall>k. 0 \<le> k \<and> k < i \<longrightarrow> cnt k \<noteq> 0"
    and inv: "(i = 0 \<and> minOn = INT64_MAX) \<or>
              (\<exists>j. 0 \<le> j \<and> j < i \<and> bestSplit = cand j \<and> minOn = cnt j \<and>
                   (\<forall>k. 0 \<le> k \<and> k < i \<longrightarrow> cnt j \<le> cnt k) \<and>
                   (\<forall>k. 0 \<le> k \<and> k < j \<longrightarrow> cnt j < cnt k))"
  shows "\<exists>j. 0 \<le> j \<and> j < iMax \<and>
           splitLoop img r0 c0 rows cols iMax i bestSplit minOn
             = (cand j, cnt j, if cnt j = 0 then j else iMax) \<and>
           (\<forall>k. 0 \<le> k \<and> k < iMax \<longrightarrow> cnt j \<le> cnt k) \<and>
           (\<forall>k. 0 \<le> k \<and> k < j \<longrightarrow> cnt j < cnt k)"
  using i nz inv
proof (induction "nat (iMax - i)" arbitrary: i bestSplit minOn)
  case 0
  then have eq: "i = iMax" by simp
  with "0.prems" obtain j where j: "0 \<le> j" "j < iMax" "bestSplit = cand j" "minOn = cnt j"
    "\<forall>k. 0 \<le> k \<and> k < iMax \<longrightarrow> cnt j \<le> cnt k" "\<forall>k. 0 \<le> k \<and> k < j \<longrightarrow> cnt j < cnt k"
    by auto
  have "cnt j \<noteq> 0" using "0.prems"(4) j(1,2) eq by simp
  then have "splitLoop img r0 c0 rows cols iMax i bestSplit minOn
             = (cand j, cnt j, if cnt j = 0 then j else iMax)"
    by (subst splitLoop_unfold) (simp add: eq j)
  with j show ?case by blast
next
  case (Suc n)
  then have lt: "i < iMax" by simp
  have nonneg: "0 \<le> cnt k" for k by (simp add: cnt_def splitCount_def)
  define b' where "b' = (if cnt i < minOn then cand i else bestSplit)"
  define m' where "m' = min minOn (cnt i)"
  have step: "splitLoop img r0 c0 rows cols iMax i bestSplit minOn
        = (if m' = 0 then (b', m', i) else splitLoop img r0 c0 rows cols iMax (i + 1) b' m')"
    using lt by (subst splitLoop_unfold) (simp add: b'_def m'_def cnt_def cand_def)
  have mpos: "0 < minOn"
  proof -
    from Suc.prems(5) consider "minOn = INT64_MAX" | j where "0 \<le> j" "j < i" "minOn = cnt j"
      by blast
    then show ?thesis
    proof cases
      case 1
      then show ?thesis by (simp add: INT64_MAX_def)
    next
      case (2 j)
      with Suc.prems(4) have "cnt j \<noteq> 0" by blast
      with nonneg [of j] 2(3) show ?thesis by simp
    qed
  qed
  have inv': "\<exists>j. 0 \<le> j \<and> j < i + 1 \<and> b' = cand j \<and> m' = cnt j \<and>
                   (\<forall>k. 0 \<le> k \<and> k < i + 1 \<longrightarrow> cnt j \<le> cnt k) \<and>
                   (\<forall>k. 0 \<le> k \<and> k < j \<longrightarrow> cnt j < cnt k)"
  proof (cases "cnt i < minOn")
    case True
    have "\<forall>k. 0 \<le> k \<and> k < i \<longrightarrow> cnt i < cnt k"
      using Suc.prems(5) True Suc.prems(1) by auto
    then have "\<forall>k. 0 \<le> k \<and> k < i + 1 \<longrightarrow> cnt i \<le> cnt k"
      by (metis less_le not_le zless_add1_eq)
    with True Suc.prems(1) \<open>\<forall>k. 0 \<le> k \<and> k < i \<longrightarrow> cnt i < cnt k\<close> show ?thesis
      by (intro exI [of _ i]) (simp add: b'_def m'_def)
  next
    case False
    with Suc.prems(5) bound [of i] obtain j where j: "0 \<le> j" "j < i" "bestSplit = cand j"
      "minOn = cnt j" "\<forall>k. 0 \<le> k \<and> k < i \<longrightarrow> cnt j \<le> cnt k"
      "\<forall>k. 0 \<le> k \<and> k < j \<longrightarrow> cnt j < cnt k"
      by auto
    have "\<forall>k. 0 \<le> k \<and> k < i + 1 \<longrightarrow> cnt j \<le> cnt k"
      using j(5) False j(4) by (metis less_le not_le zless_add1_eq)
    with False j show ?thesis
      by (intro exI [of _ j]) (simp add: b'_def m'_def)
  qed
  show ?case
  proof (cases "m' = 0")
    case True
    from inv' obtain j where j: "0 \<le> j" "j < i + 1" "b' = cand j" "m' = cnt j"
      "\<forall>k. 0 \<le> k \<and> k < i + 1 \<longrightarrow> cnt j \<le> cnt k" "\<forall>k. 0 \<le> k \<and> k < j \<longrightarrow> cnt j < cnt k"
      by blast
    have "j = i"
    proof (rule ccontr)
      assume "j \<noteq> i"
      with j(1,2) have "0 \<le> j \<and> j < i" by simp
      with Suc.prems(4) have "cnt j \<noteq> 0" by blast
      with True j(4) show False by simp
    qed
    have "\<forall>k. 0 \<le> k \<and> k < iMax \<longrightarrow> cnt j \<le> cnt k"
      using True j(4) nonneg by simp
    moreover have "splitLoop img r0 c0 rows cols iMax i bestSplit minOn
                   = (cand j, cnt j, if cnt j = 0 then j else iMax)"
      using True j(3,4) \<open>j = i\<close> by (simp add: step)
    ultimately show ?thesis using j(1,6) lt \<open>j = i\<close> by blast
  next
    case False
    have nz': "\<forall>k. 0 \<le> k \<and> k < i + 1 \<longrightarrow> cnt k \<noteq> 0"
    proof (intro allI impI)
      fix k assume k: "0 \<le> k \<and> k < i + 1"
      show "cnt k \<noteq> 0"
      proof (cases "k = i")
        case True
        with False mpos show ?thesis by (auto simp: m'_def min_def split: if_splits)
      next
        case False
        with k Suc.prems(4) show ?thesis by simp
      qed
    qed
    have n: "n = nat (iMax - (i + 1))" using Suc.hyps(2) by simp
    have "\<exists>j. 0 \<le> j \<and> j < iMax \<and>
           splitLoop img r0 c0 rows cols iMax (i + 1) b' m'
             = (cand j, cnt j, if cnt j = 0 then j else iMax) \<and>
           (\<forall>k. 0 \<le> k \<and> k < iMax \<longrightarrow> cnt j \<le> cnt k) \<and>
           (\<forall>k. 0 \<le> k \<and> k < j \<longrightarrow> cnt j < cnt k)"
      using Suc.prems(1) lt Suc.prems(3) nz' inv'
      by (intro Suc.hyps(1) [OF n]) auto
    with False show ?thesis by (simp add: step)
  qed
qed


lemma section_px_row:
  "section_px img r c0 1 cols = map (find_px img r) [c0..c0 + cols - 1]"
  by (simp add: section_px_def find_px_def)

lemma section_px_col:
  "section_px img r0 c rows 1 = map (\<lambda>r. find_px img r c) [r0..r0 + rows - 1]"
proof -
  have "concat (map (\<lambda>r. [f r]) xs) = map f xs" for f :: "int \<Rightarrow> int" and xs
    by (induction xs) simp_all
  then show ?thesis by (simp add: section_px_def find_px_def)
qed

lemma splitCount_bound:
  assumes "rows \<le> INT32_MAX" "cols \<le> INT32_MAX"
  shows "splitCount img r0 c0 rows cols k < INT64_MAX"
proof -
  have "int (length (filter P (map f [a..a + n - 1]))) \<le> max 0 n"
    for P :: "int \<Rightarrow> bool" and f :: "int \<Rightarrow> int" and a n
  proof -
    have "length (filter P (map f [a..a + n - 1])) \<le> length (map f [a..a + n - 1])"
      by (rule length_filter_le)
    then show ?thesis by simp
  qed
  note b = this
  have "splitCount img r0 c0 rows cols k \<le> max 0 (max rows cols)"
  proof (cases "rows \<ge> cols")
    case True
    have "splitCount img r0 c0 rows cols k \<le> max 0 cols"
      using True unfolding splitCount_def section_px_row by (simp only: if_True b)
    then show ?thesis by simp
  next
    case False
    have "splitCount img r0 c0 rows cols k \<le> max 0 rows"
      using False unfolding splitCount_def section_px_col by (simp only: if_False b)
    then show ?thesis by simp
  qed
  with assms show ?thesis by (simp add: INT32_MAX_def INT64_MAX_def)
qed

lemma splitOffset_alt:
  assumes "0 \<le> i"
  shows "splitOffset i = (if even i then i div 2 else - ((i + 1) div 2))"
proof (cases "even i")
  case True
  have "(i + 1) sdiv 2 = (i + 1) div 2" using assms by (intro sdiv_nonneg) simp_all
  also have "\<dots> = i div 2" using True by presburger
  finally show ?thesis using True by (simp add: splitOffset_def)
next
  case False
  have "(- (i + 1)) sdiv 2 = - ((i + 1) sdiv 2)" by (rule minus_sdiv_eq)
  also have "(i + 1) sdiv 2 = (i + 1) div 2" using assms by (intro sdiv_nonneg) simp_all
  finally show ?thesis using False by (simp add: splitOffset_def)
qed

lemma splitCand_range:
  assumes "5 \<le> max rows cols" "0 \<le> k" "k < max rows cols - 4"
  shows "if rows \<ge> cols
         then r0 + 2 \<le> splitCand r0 c0 rows cols k \<and> splitCand r0 c0 rows cols k \<le> r0 + rows - 3
         else c0 + 2 \<le> splitCand r0 c0 rows cols k \<and> splitCand r0 c0 rows cols k \<le> c0 + cols - 3"
proof -
  have a: "2 \<le> n div 2 + (if even k then k div 2 else - ((k + 1) div 2)) \<and>
           n div 2 + (if even k then k div 2 else - ((k + 1) div 2)) \<le> n - 3"
    if "5 \<le> n" "k < n - 4" for n :: int
    using that assms(2) by (cases "even k") presburger+
  show ?thesis
  proof (cases "rows \<ge> cols")
    case True
    with assms have "5 \<le> rows" "k < rows - 4" by simp_all
    from a [OF this] True assms(2) \<open>5 \<le> rows\<close> show ?thesis
      by (simp add: splitCand_def splitOffset_alt sdiv_nonneg)
  next
    case False
    with assms have "5 \<le> cols" "k < cols - 4" by simp_all
    from a [OF this] False assms(2) \<open>5 \<le> cols\<close> show ?thesis
      by (simp add: splitCand_def splitOffset_alt sdiv_nonneg)
  qed
qed

lemma splitLoop_result:
  assumes "5 \<le> max rows cols" "rows \<le> INT32_MAX" "cols \<le> INT32_MAX"
  shows "\<exists>j. 0 \<le> j \<and> j < max rows cols - 4 \<and>
           splitLoop img r0 c0 rows cols (max rows cols - 4) 0 (- 1) INT64_MAX
             = (splitCand r0 c0 rows cols j, splitCount img r0 c0 rows cols j,
                if splitCount img r0 c0 rows cols j = 0 then j else max rows cols - 4) \<and>
           (\<forall>k. 0 \<le> k \<and> k < max rows cols - 4 \<longrightarrow>
                splitCount img r0 c0 rows cols j \<le> splitCount img r0 c0 rows cols k) \<and>
           (\<forall>k. 0 \<le> k \<and> k < j \<longrightarrow>
                splitCount img r0 c0 rows cols j < splitCount img r0 c0 rows cols k)"
proof (rule splitLoop_invariant)
  show "splitCount img r0 c0 rows cols k < INT64_MAX" for k
    using assms(2,3) by (rule splitCount_bound)
  show "0 \<le> (0::int)" by simp
  show "0 \<le> max rows cols - 4" "0 < max rows cols - 4" using assms(1) by simp_all
  show "\<forall>k. 0 \<le> k \<and> k < 0 \<longrightarrow> splitCount img r0 c0 rows cols k \<noteq> 0" by simp
  show "(0::int) = 0 \<and> INT64_MAX = INT64_MAX \<or>
        (\<exists>j. 0 \<le> j \<and> j < 0 \<and> - 1 = splitCand r0 c0 rows cols j \<and>
             INT64_MAX = splitCount img r0 c0 rows cols j \<and>
             (\<forall>k. 0 \<le> k \<and> k < 0 \<longrightarrow>
                  splitCount img r0 c0 rows cols j \<le> splitCount img r0 c0 rows cols k) \<and>
             (\<forall>k. 0 \<le> k \<and> k < j \<longrightarrow>
                  splitCount img r0 c0 rows cols j < splitCount img r0 c0 rows cols k))"
    by simp
qed

lemma split_position:
  fixes img :: BitImage and r0 c0 rows cols :: int
  assumes "5 \<le> max rows cols" "rows \<le> INT32_MAX" "cols \<le> INT32_MAX"
  defines "s \<equiv> fst (splitLoop img r0 c0 rows cols (max rows cols - 4) 0 (- 1) INT64_MAX)"
  shows "if rows \<ge> cols then r0 + 2 \<le> s \<and> s \<le> r0 + rows - 3
         else c0 + 2 \<le> s \<and> s \<le> c0 + cols - 3"
proof -
  from splitLoop_result [OF assms(1-3), of img r0 c0] obtain j where
    j: "0 \<le> j" "j < max rows cols - 4" and "s = splitCand r0 c0 rows cols j"
    unfolding s_def by force
  with splitCand_range [OF assms(1) j, of r0 c0] show ?thesis by simp
qed


text \<open>
  In the words of the specification: candidate \<open>k\<close> is the centre line of
  the chosen axis plus the \<open>k\<close>-th offset of \<open>0, -1, +1, -2, +2, ...\<close>; the
  count of a line is the number of on pixels of the section on it.
\<close>

definition candidateLine :: "int \<Rightarrow> int \<Rightarrow> int \<Rightarrow> int \<Rightarrow> int \<Rightarrow> int" where
  "candidateLine r0 c0 rows cols k =
     (if rows \<ge> cols then r0 + rows div 2 else c0 + cols div 2)
     + (if even k then k div 2 else - ((k + 1) div 2))"

definition onCountLine :: "BitImage \<Rightarrow> int \<Rightarrow> int \<Rightarrow> int \<Rightarrow> int \<Rightarrow> int \<Rightarrow> int" where
  "onCountLine img r0 c0 rows cols line =
     (if rows \<ge> cols
      then int (length (filter (\<lambda>c. pixelAt img line c \<noteq> 0) [c0..c0 + cols - 1]))
      else int (length (filter (\<lambda>r. pixelAt img r line \<noteq> 0) [r0..r0 + rows - 1])))"

lemma splitCand_candidateLine:
  assumes "5 \<le> max rows cols" "0 \<le> k"
  shows "splitCand r0 c0 rows cols k = candidateLine r0 c0 rows cols k"
proof (cases "rows \<ge> cols")
  case True
  with assms have "0 \<le> rows" by simp
  then show ?thesis using True assms(2)
    by (simp add: splitCand_def candidateLine_def splitOffset_alt sdiv_nonneg)
next
  case False
  with assms have "0 \<le> cols" by simp
  then show ?thesis using False assms(2)
    by (simp add: splitCand_def candidateLine_def splitOffset_alt sdiv_nonneg)
qed

lemma splitCount_onCountLine:
  "splitCount img r0 c0 rows cols k = onCountLine img r0 c0 rows cols (splitCand r0 c0 rows cols k)"
  by (simp add: splitCount_def onCountLine_def section_px_row section_px_col filter_map
        pixelAt_def find_px_def uint_0_iff comp_def)

text \<open>
  C6. On a section whose chosen axis has length \<open>dim = max rows cols \<ge> 5\<close>,
  the loop over the \<open>dim - 4\<close> candidates returns candidate \<open>j\<close> with its
  count, where \<open>j\<close> has the minimum count of all \<open>dim - 4\<close> candidates and
  every earlier candidate has a strictly larger count (the earlier one wins
  a tie). The loop counter at the end is \<open>j\<close> when that count is 0 (the loop
  stopped at the first candidate without on pixels) and \<open>dim - 4\<close> otherwise
  (all candidates were examined).
\<close>

theorem splitLoop_selects_earliest_minimum:
  assumes "5 \<le> max rows cols" "rows \<le> INT32_MAX" "cols \<le> INT32_MAX"
  shows "\<exists>j. 0 \<le> j \<and> j < max rows cols - 4 \<and>
           splitLoop img r0 c0 rows cols (max rows cols - 4) 0 (- 1) INT64_MAX
             = (candidateLine r0 c0 rows cols j,
                onCountLine img r0 c0 rows cols (candidateLine r0 c0 rows cols j),
                if onCountLine img r0 c0 rows cols (candidateLine r0 c0 rows cols j) = 0
                then j else max rows cols - 4) \<and>
           (\<forall>k. 0 \<le> k \<and> k < max rows cols - 4 \<longrightarrow>
                onCountLine img r0 c0 rows cols (candidateLine r0 c0 rows cols j)
                \<le> onCountLine img r0 c0 rows cols (candidateLine r0 c0 rows cols k)) \<and>
           (\<forall>k. 0 \<le> k \<and> k < j \<longrightarrow>
                onCountLine img r0 c0 rows cols (candidateLine r0 c0 rows cols j)
                < onCountLine img r0 c0 rows cols (candidateLine r0 c0 rows cols k))"
proof -
  have c: "splitCount img r0 c0 rows cols k
           = onCountLine img r0 c0 rows cols (candidateLine r0 c0 rows cols k)" if "0 \<le> k" for k
    using splitCand_candidateLine [OF assms(1) that, of r0 c0]
    by (simp add: splitCount_onCountLine)
  from splitLoop_result [OF assms, of img r0 c0] obtain j where j: "0 \<le> j" "j < max rows cols - 4"
    "splitLoop img r0 c0 rows cols (max rows cols - 4) 0 (- 1) INT64_MAX
       = (splitCand r0 c0 rows cols j, splitCount img r0 c0 rows cols j,
          if splitCount img r0 c0 rows cols j = 0 then j else max rows cols - 4)"
    "\<forall>k. 0 \<le> k \<and> k < max rows cols - 4 \<longrightarrow>
         splitCount img r0 c0 rows cols j \<le> splitCount img r0 c0 rows cols k"
    "\<forall>k. 0 \<le> k \<and> k < j \<longrightarrow>
         splitCount img r0 c0 rows cols j < splitCount img r0 c0 rows cols k"
    by blast
  show ?thesis
    apply (rule exI [of _ j])
    using j c splitCand_candidateLine [OF assms(1) j(1), of r0 c0] by simp
qed


theorem splitLoop_selects_earliest_minimum_witness:
  "splitLoop \<lparr>m_rows = 7, m_cols = 3, bits = [0,1,0, 0,1,0, 0,1,0, 1,1,0, 0,1,0, 0,1,0, 0,1,0]\<rparr>
     0 0 7 3 (max 7 3 - 4) 0 (- 1) INT64_MAX = (2, 1, 3) \<and>
   (\<exists>j. 0 \<le> j \<and> j < max 7 3 - 4 \<and>
      splitLoop \<lparr>m_rows = 7, m_cols = 3, bits = [0,1,0, 0,1,0, 0,1,0, 1,1,0, 0,1,0, 0,1,0, 0,1,0]\<rparr>
        0 0 7 3 (max 7 3 - 4) 0 (- 1) INT64_MAX
      = (candidateLine 0 0 7 3 j,
         onCountLine \<lparr>m_rows = 7, m_cols = 3, bits = [0,1,0, 0,1,0, 0,1,0, 1,1,0, 0,1,0, 0,1,0, 0,1,0]\<rparr>
           0 0 7 3 (candidateLine 0 0 7 3 j),
         if onCountLine \<lparr>m_rows = 7, m_cols = 3, bits = [0,1,0, 0,1,0, 0,1,0, 1,1,0, 0,1,0, 0,1,0, 0,1,0]\<rparr>
              0 0 7 3 (candidateLine 0 0 7 3 j) = 0
         then j else max 7 3 - 4) \<and>
      (\<forall>k. 0 \<le> k \<and> k < max 7 3 - 4 \<longrightarrow>
         onCountLine \<lparr>m_rows = 7, m_cols = 3, bits = [0,1,0, 0,1,0, 0,1,0, 1,1,0, 0,1,0, 0,1,0, 0,1,0]\<rparr>
           0 0 7 3 (candidateLine 0 0 7 3 j)
         \<le> onCountLine \<lparr>m_rows = 7, m_cols = 3, bits = [0,1,0, 0,1,0, 0,1,0, 1,1,0, 0,1,0, 0,1,0, 0,1,0]\<rparr>
              0 0 7 3 (candidateLine 0 0 7 3 k)) \<and>
      (\<forall>k. 0 \<le> k \<and> k < j \<longrightarrow>
         onCountLine \<lparr>m_rows = 7, m_cols = 3, bits = [0,1,0, 0,1,0, 0,1,0, 1,1,0, 0,1,0, 0,1,0, 0,1,0]\<rparr>
           0 0 7 3 (candidateLine 0 0 7 3 j)
         < onCountLine \<lparr>m_rows = 7, m_cols = 3, bits = [0,1,0, 0,1,0, 0,1,0, 1,1,0, 0,1,0, 0,1,0, 0,1,0]\<rparr>
             0 0 7 3 (candidateLine 0 0 7 3 k)))"
proof -
  have h1: "5 \<le> max 7 (3::int)" by simp
  have h2: "(7::int) \<le> INT32_MAX" and h3: "(3::int) \<le> INT32_MAX" by (simp_all add: INT32_MAX_def)
  have v: "splitLoop \<lparr>m_rows = 7, m_cols = 3, bits = [0,1,0, 0,1,0, 0,1,0, 1,1,0, 0,1,0, 0,1,0, 0,1,0]\<rparr>
     0 0 7 3 (max 7 3 - 4) 0 (- 1) INT64_MAX = (2, 1, 3)" by code_simp
  show ?thesis by (rule conjI [OF v splitLoop_selects_earliest_minimum [OF h1 h2 h3]])
qed

lemma fitPolylines_rec_split:
  assumes ne: "\<not> isEmpty img (section_px img r0 c0 rows cols)"
    and it: "iter < maxRecursions"
    and big: "\<not> (cols < max minSectionSize 5 \<and> rows < max minSectionSize 5)"
    and pos: "0 \<le> r0" "0 \<le> c0"
    and bnd: "rows \<le> INT32_MAX" "cols \<le> INT32_MAX"
  defines "s \<equiv> fst (splitLoop img r0 c0 rows cols (max rows cols - 4) 0 (- 1) INT64_MAX)"
  shows "fitPolylines_rec std_sort img r0 c0 rows cols iter minSectionSize maxRecursions =
           (if rows \<ge> cols
            then mergeResults
                   (fitPolylines_rec std_sort img r0 c0 (s - r0 + 1) cols (iter + 1) minSectionSize maxRecursions)
                   (fitPolylines_rec std_sort img s c0 (r0 + rows - s) cols (iter + 1) minSectionSize maxRecursions)
            else mergeResults
                   (fitPolylines_rec std_sort img r0 c0 rows (s - c0 + 1) (iter + 1) minSectionSize maxRecursions)
                   (fitPolylines_rec std_sort img r0 s rows (c0 + cols - s) (iter + 1) minSectionSize maxRecursions))"
proof -
  have five: "5 \<le> max rows cols" using big by auto
  have c: "(maxRecursions \<le> iter \<or> cols < max minSectionSize 5 \<and> rows < max minSectionSize 5)
           = False"
    using it big by auto
  note sp = split_position [OF five bnd, where img = img and ?r0.0 = r0 and ?c0.0 = c0,
      folded s_def]
  show ?thesis
  proof (cases "rows \<ge> cols")
    case True
    then have s: "fst (splitLoop img r0 c0 rows cols (rows - 4) 0 (- 1) INT64_MAX) = s"
      by (simp add: s_def max_def)
    show ?thesis
      by (subst fitPolylines_rec.simps) (simp add: ne c True Let_def s)
  next
    case False
    then have s: "fst (splitLoop img r0 c0 rows cols (cols - 4) 0 (- 1) INT64_MAX) = s"
      by (simp add: s_def max_def)
    have "s \<noteq> - 1" using sp pos False by (auto split: if_splits)
    then show ?thesis
      by (subst fitPolylines_rec.simps) (simp add: ne c False Let_def s)
  qed
qed


section \<open>The sections of the recursion\<close>

definition atLeast3x3 :: "int \<times> int \<times> int \<times> int \<Rightarrow> bool" where
  "atLeast3x3 sec = (case sec of (r0, c0, rows, cols) \<Rightarrow> 3 \<le> rows \<and> 3 \<le> cols)"

lemma snd_mergeResults: "snd (mergeResults a b) = snd a @ snd b"
  by (simp add: mergeResults_def)

lemma fitPolylines_rec_leaves:
  assumes "0 \<le> r0" "0 \<le> c0" "3 \<le> rows" "3 \<le> cols" "rows \<le> INT32_MAX" "cols \<le> INT32_MAX"
  shows "\<forall>sec \<in> set (snd (fitPolylines_rec std_sort img r0 c0 rows cols iter minSectionSize maxRecursions)).
           atLeast3x3 sec"
  using assms
proof (induction "nat (maxRecursions - iter)" arbitrary: iter r0 c0 rows cols)
  case 0
  then have "maxRecursions \<le> iter" by simp
  then show ?case using "0.prems"
    by (subst fitPolylines_rec.simps) (simp add: Let_def atLeast3x3_def)
next
  case (Suc n)
  show ?case
  proof (cases "\<not> isEmpty img (section_px img r0 c0 rows cols) \<and> iter < maxRecursions \<and>
                \<not> (cols < max minSectionSize 5 \<and> rows < max minSectionSize 5)")
    case False
    then show ?thesis using Suc.prems
      by (subst fitPolylines_rec.simps) (auto simp: Let_def atLeast3x3_def)
  next
    case True
    define s where "s = fst (splitLoop img r0 c0 rows cols (max rows cols - 4) 0 (- 1) INT64_MAX)"
    have five: "5 \<le> max rows cols" using True by auto
    note sp = split_position [OF five Suc.prems(5,6), where img = img and ?r0.0 = r0 and ?c0.0 = c0,
        folded s_def]
    note eq = fitPolylines_rec_split [OF True [THEN conjunct1] True [THEN conjunct2, THEN conjunct1]
        True [THEN conjunct2, THEN conjunct2] Suc.prems(1,2,5,6), folded s_def]
    have n: "n = nat (maxRecursions - (iter + 1))" using Suc.hyps(2) by simp
    show ?thesis
    proof (cases "rows \<ge> cols")
      case r: True
      with sp have b: "r0 + 2 \<le> s" "s \<le> r0 + rows - 3" by simp_all
      have "\<forall>sec \<in> set (snd (fitPolylines_rec std_sort img r0 c0 (s - r0 + 1) cols (iter + 1)
                minSectionSize maxRecursions)). atLeast3x3 sec"
        using Suc.prems b by (intro Suc.hyps(1) [OF n]) auto
      moreover have "\<forall>sec \<in> set (snd (fitPolylines_rec std_sort img s c0 (r0 + rows - s) cols (iter + 1)
                minSectionSize maxRecursions)). atLeast3x3 sec"
        using Suc.prems b by (intro Suc.hyps(1) [OF n]) auto
      ultimately show ?thesis using r by (auto simp: eq snd_mergeResults)
    next
      case r: False
      with sp have b: "c0 + 2 \<le> s" "s \<le> c0 + cols - 3" by simp_all
      have "\<forall>sec \<in> set (snd (fitPolylines_rec std_sort img r0 c0 rows (s - c0 + 1) (iter + 1)
                minSectionSize maxRecursions)). atLeast3x3 sec"
        using Suc.prems b by (intro Suc.hyps(1) [OF n]) auto
      moreover have "\<forall>sec \<in> set (snd (fitPolylines_rec std_sort img r0 s rows (c0 + cols - s) (iter + 1)
                minSectionSize maxRecursions)). atLeast3x3 sec"
        using Suc.prems b by (intro Suc.hyps(1) [OF n]) auto
      ultimately show ?thesis using r by (auto simp: eq snd_mergeResults)
    qed
  qed
qed

text \<open>
  C5. For a section inside an image (\<open>0 \<le> r0\<close>, \<open>0 \<le> c0\<close>, extents in the
  \<^verbatim>\<open>int32_t\<close> range) with at least 3 rows and 3 columns: every section passed
  to \<^verbatim>\<open>fitSegments\<close> is at least 3 x 3; and when the tracer splits, at \<open>s\<close>, it
  recurses on \<open>(r0, c0, s - r0 + 1, cols)\<close> and \<open>(s, c0, r0 + rows - s, cols)\<close>
  (columns alike), both at least 3 x 3, which share exactly the line \<open>s\<close> and
  together cover the section.
\<close>

theorem fitPolylines_rec_sections:
  assumes "0 \<le> r0" "0 \<le> c0" "3 \<le> rows" "3 \<le> cols" "rows \<le> INT32_MAX" "cols \<le> INT32_MAX"
  shows "(\<forall>sec \<in> set (snd (fitPolylines_rec std_sort img r0 c0 rows cols iter minSectionSize maxRecursions)).
            atLeast3x3 sec) \<and>
         (\<not> isEmpty img (section_px img r0 c0 rows cols) \<and> iter < maxRecursions \<and>
          \<not> (cols < max minSectionSize 5 \<and> rows < max minSectionSize 5) \<longrightarrow>
            (let s = fst (splitLoop img r0 c0 rows cols (max rows cols - 4) 0 (- 1) INT64_MAX) in
             if rows \<ge> cols
             then fitPolylines_rec std_sort img r0 c0 rows cols iter minSectionSize maxRecursions
                    = mergeResults
                        (fitPolylines_rec std_sort img r0 c0 (s - r0 + 1) cols (iter + 1)
                           minSectionSize maxRecursions)
                        (fitPolylines_rec std_sort img s c0 (r0 + rows - s) cols (iter + 1)
                           minSectionSize maxRecursions) \<and>
                  atLeast3x3 (r0, c0, s - r0 + 1, cols) \<and>
                  atLeast3x3 (s, c0, r0 + rows - s, cols) \<and>
                  {r0..<r0 + (s - r0 + 1)} \<inter> {s..<s + (r0 + rows - s)} = {s} \<and>
                  {r0..<r0 + (s - r0 + 1)} \<union> {s..<s + (r0 + rows - s)} = {r0..<r0 + rows}
             else fitPolylines_rec std_sort img r0 c0 rows cols iter minSectionSize maxRecursions
                    = mergeResults
                        (fitPolylines_rec std_sort img r0 c0 rows (s - c0 + 1) (iter + 1)
                           minSectionSize maxRecursions)
                        (fitPolylines_rec std_sort img r0 s rows (c0 + cols - s) (iter + 1)
                           minSectionSize maxRecursions) \<and>
                  atLeast3x3 (r0, c0, rows, s - c0 + 1) \<and>
                  atLeast3x3 (r0, s, rows, c0 + cols - s) \<and>
                  {c0..<c0 + (s - c0 + 1)} \<inter> {s..<s + (c0 + cols - s)} = {s} \<and>
                  {c0..<c0 + (s - c0 + 1)} \<union> {s..<s + (c0 + cols - s)} = {c0..<c0 + cols}))"
proof (intro conjI impI)
  show "\<forall>sec \<in> set (snd (fitPolylines_rec std_sort img r0 c0 rows cols iter minSectionSize maxRecursions)).
          atLeast3x3 sec"
    using assms by (rule fitPolylines_rec_leaves)
next
  assume c: "\<not> isEmpty img (section_px img r0 c0 rows cols) \<and> iter < maxRecursions \<and>
             \<not> (cols < max minSectionSize 5 \<and> rows < max minSectionSize 5)"
  define s where "s = fst (splitLoop img r0 c0 rows cols (max rows cols - 4) 0 (- 1) INT64_MAX)"
  have five: "5 \<le> max rows cols" using c by auto
  note sp = split_position [OF five assms(5,6), where img = img and ?r0.0 = r0 and ?c0.0 = c0,
      folded s_def]
  note eq = fitPolylines_rec_split [OF c [THEN conjunct1] c [THEN conjunct2, THEN conjunct1]
      c [THEN conjunct2, THEN conjunct2] assms(1,2,5,6), folded s_def]
  have "if rows \<ge> cols
        then fitPolylines_rec std_sort img r0 c0 rows cols iter minSectionSize maxRecursions
               = mergeResults
                   (fitPolylines_rec std_sort img r0 c0 (s - r0 + 1) cols (iter + 1)
                      minSectionSize maxRecursions)
                   (fitPolylines_rec std_sort img s c0 (r0 + rows - s) cols (iter + 1)
                      minSectionSize maxRecursions) \<and>
             atLeast3x3 (r0, c0, s - r0 + 1, cols) \<and>
             atLeast3x3 (s, c0, r0 + rows - s, cols) \<and>
             {r0..<r0 + (s - r0 + 1)} \<inter> {s..<s + (r0 + rows - s)} = {s} \<and>
             {r0..<r0 + (s - r0 + 1)} \<union> {s..<s + (r0 + rows - s)} = {r0..<r0 + rows}
        else fitPolylines_rec std_sort img r0 c0 rows cols iter minSectionSize maxRecursions
               = mergeResults
                   (fitPolylines_rec std_sort img r0 c0 rows (s - c0 + 1) (iter + 1)
                      minSectionSize maxRecursions)
                   (fitPolylines_rec std_sort img r0 s rows (c0 + cols - s) (iter + 1)
                      minSectionSize maxRecursions) \<and>
             atLeast3x3 (r0, c0, rows, s - c0 + 1) \<and>
             atLeast3x3 (r0, s, rows, c0 + cols - s) \<and>
             {c0..<c0 + (s - c0 + 1)} \<inter> {s..<s + (c0 + cols - s)} = {s} \<and>
             {c0..<c0 + (s - c0 + 1)} \<union> {s..<s + (c0 + cols - s)} = {c0..<c0 + cols}"
  proof (cases "rows \<ge> cols")
    case True
    with sp have b: "r0 + 2 \<le> s" "s \<le> r0 + rows - 3" by simp_all
    have "{r0..<r0 + (s - r0 + 1)} \<inter> {s..<s + (r0 + rows - s)} = {s}"
      "{r0..<r0 + (s - r0 + 1)} \<union> {s..<s + (r0 + rows - s)} = {r0..<r0 + rows}"
      using b by auto
    with True eq b assms(4) show ?thesis by (simp add: atLeast3x3_def)
  next
    case False
    with sp have b: "c0 + 2 \<le> s" "s \<le> c0 + cols - 3" by simp_all
    have "{c0..<c0 + (s - c0 + 1)} \<inter> {s..<s + (c0 + cols - s)} = {s}"
      "{c0..<c0 + (s - c0 + 1)} \<union> {s..<s + (c0 + cols - s)} = {c0..<c0 + cols}"
      using b by auto
    with False eq b assms(3) show ?thesis by (simp add: atLeast3x3_def)
  qed
  then show "let s = fst (splitLoop img r0 c0 rows cols (max rows cols - 4) 0 (- 1) INT64_MAX) in
             if rows \<ge> cols
             then fitPolylines_rec std_sort img r0 c0 rows cols iter minSectionSize maxRecursions
                    = mergeResults
                        (fitPolylines_rec std_sort img r0 c0 (s - r0 + 1) cols (iter + 1)
                           minSectionSize maxRecursions)
                        (fitPolylines_rec std_sort img s c0 (r0 + rows - s) cols (iter + 1)
                           minSectionSize maxRecursions) \<and>
                  atLeast3x3 (r0, c0, s - r0 + 1, cols) \<and>
                  atLeast3x3 (s, c0, r0 + rows - s, cols) \<and>
                  {r0..<r0 + (s - r0 + 1)} \<inter> {s..<s + (r0 + rows - s)} = {s} \<and>
                  {r0..<r0 + (s - r0 + 1)} \<union> {s..<s + (r0 + rows - s)} = {r0..<r0 + rows}
             else fitPolylines_rec std_sort img r0 c0 rows cols iter minSectionSize maxRecursions
                    = mergeResults
                        (fitPolylines_rec std_sort img r0 c0 rows (s - c0 + 1) (iter + 1)
                           minSectionSize maxRecursions)
                        (fitPolylines_rec std_sort img r0 s rows (c0 + cols - s) (iter + 1)
                           minSectionSize maxRecursions) \<and>
                  atLeast3x3 (r0, c0, rows, s - c0 + 1) \<and>
                  atLeast3x3 (r0, s, rows, c0 + cols - s) \<and>
                  {c0..<c0 + (s - c0 + 1)} \<inter> {s..<s + (c0 + cols - s)} = {s} \<and>
                  {c0..<c0 + (s - c0 + 1)} \<union> {s..<s + (c0 + cols - s)} = {c0..<c0 + cols}"
    unfolding Let_def s_def .
qed

theorem fitPolylines_rec_sections_witness:
  "snd (fitPolylines_rec insertion_sort \<lparr>m_rows = 5, m_cols = 5, bits = [0,0,1,0,0, 0,0,1,0,0, 1,1,1,0,0, 0,0,0,0,0, 0,0,0,0,0]\<rparr> 0 0 5 5 0 3 INT32_MAX)
     = [(0, 0, 3, 3), (0, 2, 3, 3), (2, 0, 3, 3), (2, 2, 3, 3)] \<and>
   fst (splitLoop \<lparr>m_rows = 5, m_cols = 5, bits = [0,0,1,0,0, 0,0,1,0,0, 1,1,1,0,0, 0,0,0,0,0, 0,0,0,0,0]\<rparr> 0 0 5 5 (max 5 5 - 4) 0 (- 1) INT64_MAX) = 2 \<and>
   fitPolylines_rec insertion_sort \<lparr>m_rows = 5, m_cols = 5, bits = [0,0,1,0,0, 0,0,1,0,0, 1,1,1,0,0, 0,0,0,0,0, 0,0,0,0,0]\<rparr> 0 0 5 5 0 3 INT32_MAX
     = mergeResults (fitPolylines_rec insertion_sort \<lparr>m_rows = 5, m_cols = 5, bits = [0,0,1,0,0, 0,0,1,0,0, 1,1,1,0,0, 0,0,0,0,0, 0,0,0,0,0]\<rparr> 0 0 3 5 1 3 INT32_MAX)
                    (fitPolylines_rec insertion_sort \<lparr>m_rows = 5, m_cols = 5, bits = [0,0,1,0,0, 0,0,1,0,0, 1,1,1,0,0, 0,0,0,0,0, 0,0,0,0,0]\<rparr> 2 0 3 5 1 3 INT32_MAX) \<and>
   atLeast3x3 (0, 0, 3, 3) \<and> atLeast3x3 (0, 2, 3, 3) \<and>
   atLeast3x3 (2, 0, 3, 3) \<and> atLeast3x3 (2, 2, 3, 3)"
proof -
  let ?L = "\<lparr>m_rows = 5, m_cols = 5, bits = [0,0,1,0,0, 0,0,1,0,0, 1,1,1,0,0, 0,0,0,0,0, 0,0,0,0,0]\<rparr>"
  have h: "(0::int) \<le> 0" "(3::int) \<le> 5" "(5::int) \<le> INT32_MAX"
    by (simp_all add: INT32_MAX_def)
  have l: "snd (fitPolylines_rec insertion_sort ?L 0 0 5 5 0 3 INT32_MAX)
             = [(0, 0, 3, 3), (0, 2, 3, 3), (2, 0, 3, 3), (2, 2, 3, 3)]" by code_simp
  have s: "fst (splitLoop ?L 0 0 5 5 (max 5 5 - 4) 0 (- 1) INT64_MAX) = 2" by code_simp
  have c: "\<not> isEmpty ?L (section_px ?L 0 0 5 5) \<and> 0 < INT32_MAX \<and>
           \<not> ((5::int) < max 3 5 \<and> (5::int) < max 3 5)" by code_simp
  note t = fitPolylines_rec_sections [OF h(1) h(1) h(2) h(2) h(3) h(3),
      of insertion_sort ?L 0 3 INT32_MAX]
  from t [THEN conjunct2, THEN mp, OF c]
  have "fitPolylines_rec insertion_sort ?L 0 0 5 5 0 3 INT32_MAX
     = mergeResults (fitPolylines_rec insertion_sort ?L 0 0 3 5 1 3 INT32_MAX)
                    (fitPolylines_rec insertion_sort ?L 2 0 3 5 1 3 INT32_MAX)"
    unfolding Let_def s by simp
  moreover from t [THEN conjunct1] have "atLeast3x3 (0, 0, 3, 3) \<and> atLeast3x3 (0, 2, 3, 3) \<and>
      atLeast3x3 (2, 0, 3, 3) \<and> atLeast3x3 (2, 2, 3, 3)"
    unfolding l by simp
  ultimately show ?thesis using l s by simp
qed

text \<open>
  C8. For every image with fewer than 3 rows or fewer than 3 columns (and
  dimensions that are not negative), the entry point returns no polyline,
  gives one warning to the diagnostic sink and leaves the image as it was:
  it returns before \<^verbatim>\<open>thinImage\<close> and before the tracer.
\<close>

theorem fitPolylines_small_image:
  assumes "0 \<le> m_rows img" "0 \<le> m_cols img" "m_rows img < 3 \<or> m_cols img < 3"
  shows "fitPolylines std_sort img minSectionSize maxRecursions doThinning
           = (Some [],
              [''Impossible to fit polylines to an image smaller than minimum size of 3x3!''],
              img)"
proof -
  have u: "size_t_of_int32 x = nat x" if "0 \<le> x" "x < 3" for x
  proof -
    have "x = 0 \<or> x = 1 \<or> x = 2" using that by auto
    then show ?thesis by (auto simp: size_t_of_int32_def)
  qed
  from assms have "size_t_of_int32 (m_rows img) < 3 \<or> size_t_of_int32 (m_cols img) < 3"
    by (auto simp: u)
  then show ?thesis by (simp add: fitPolylines_def Let_def)
qed

theorem fitPolylines_small_image_witness:
  "fitPolylines insertion_sort \<lparr>m_rows = 2, m_cols = 7, bits = [0,0,0,0,0,0,0, 1,1,1,1,1,1,1]\<rparr> 5 0 True
     = (Some [],
        [''Impossible to fit polylines to an image smaller than minimum size of 3x3!''],
        \<lparr>m_rows = 2, m_cols = 7, bits = [0,0,0,0,0,0,0, 1,1,1,1,1,1,1]\<rparr>)"
  by (rule fitPolylines_small_image) simp_all

section \<open>The polyline simplifier (\<^verbatim>\<open>FittingUtils::simplifyPolyline\<close>)\<close>

text \<open>
  \<^verbatim>\<open>std::max_element(first, last, comp)\<close> on a vector, with iterators as
  positions: the loop keeps the position of the largest element so far and
  replaces it when \<^verbatim>\<open>comp(*largest, *first)\<close> holds.
\<close>

function max_element_loop :: "'a list \<Rightarrow> ('a \<Rightarrow> 'a \<Rightarrow> bool) \<Rightarrow> nat \<Rightarrow> nat \<Rightarrow> nat \<Rightarrow> nat" where
  "max_element_loop xs cmp largest first fin =
     (if first < fin
      then max_element_loop xs cmp
             (if cmp (xs ! largest) (xs ! first) then first else largest) (Suc first) fin
      else largest)"
  by pat_completeness auto
termination
  by (relation "measure (\<lambda>(xs, cmp, largest, first, fin). fin - first)") auto

declare max_element_loop.simps [simp del]

definition max_element :: "'a list \<Rightarrow> ('a \<Rightarrow> 'a \<Rightarrow> bool) \<Rightarrow> nat \<Rightarrow> nat \<Rightarrow> nat" where
  "max_element xs cmp first fin =
     (if first = fin then fin else max_element_loop xs cmp first (Suc first) fin)"

text \<open>
  The loop \<^verbatim>\<open>while (pt != pointB) std::iter_swap(pointA++, pt++)\<close>. When
  \<open>pt\<close> is beyond \<open>pointB\<close> the loop of the source never meets its exit
  condition inside the vector; the model returns \<open>None\<close> there.
\<close>

function compact :: "'a list \<Rightarrow> nat \<Rightarrow> nat \<Rightarrow> nat \<Rightarrow> ('a list \<times> nat) option" where
  "compact arr pointA pt pointB =
     (if pt \<noteq> pointB
      then if pt < pointB then compact (iter_swap arr pointA pt) (Suc pointA) (Suc pt) pointB
           else None
      else Some (arr, pointA))"
  by pat_completeness auto
termination
  by (relation "measure (\<lambda>(arr, pointA, pt, pointB). pointB - pt)") auto

declare compact.simps [simp del]

lemma max_element_loop_range:
  "largest < first \<Longrightarrow> first \<le> fin \<Longrightarrow>
     lo \<le> largest \<Longrightarrow> lo \<le> max_element_loop xs cmp largest first fin \<and>
     max_element_loop xs cmp largest first fin < fin"
proof (induction xs cmp largest first fin rule: max_element_loop.induct)
  case (1 xs cmp largest first fin)
  show ?case
  proof (cases "first < fin")
    case True
    have "lo \<le> max_element_loop xs cmp
             (if cmp (xs ! largest) (xs ! first) then first else largest) (Suc first) fin \<and>
          max_element_loop xs cmp
             (if cmp (xs ! largest) (xs ! first) then first else largest) (Suc first) fin < fin"
      using "1.prems" True by (intro "1.IH") auto
    with True show ?thesis by (subst (1 2) max_element_loop.simps) simp
  next
    case False
    with "1.prems" show ?thesis by (subst (1 2) max_element_loop.simps) simp
  qed
qed

lemma max_element_range:
  "first < fin \<Longrightarrow> first \<le> max_element xs cmp first fin \<and> max_element xs cmp first fin < fin"
  unfolding max_element_def using max_element_loop_range [of first "Suc first" fin first xs cmp]
  by simp

text \<open>
  \<^verbatim>\<open>simplifyPolyline(first, last, get2DCoords, epsilon)\<close> works in place on
  the vector \<open>arr\<close> that the iterators \<open>first\<close> and \<open>fin\<close> point into, and
  returns the vector and the returned iterator. The floating-point
  operations are parameters, so that every theorem holds for whatever they
  compute (rounding, infinities and NaN included):
  \<^item> \<open>same\<close> is \<^verbatim>\<open>operator==\<close> of the points;
  \<^item> \<open>distSeg p a b\<close> is
    \<^verbatim>\<open>computeSquaredDistanceToSegment<TFloat>(get2DCoords(p), get2DCoords(a), get2DCoords(b))\<close>;
  \<^item> \<open>lt\<close> is \<^verbatim>\<open><\<close> on \<^verbatim>\<open>TFloat\<close> (\<^verbatim>\<open>x > y\<close> is \<open>lt y x\<close>);
  \<^item> \<open>epsNonPos\<close> is \<^verbatim>\<open>epsilon <= TFloat{0}\<close> and \<open>epsSq\<close> is
    \<^verbatim>\<open>std::pow(epsilon, TFloat{2})\<close>.
  \<^verbatim>\<open>std::prev(last)\<close> is \<open>fin - 1\<close>; \<^verbatim>\<open>std::distance\<close> is the difference of
  the positions as integers. The first test of the \<^verbatim>\<open>if\<close> short-circuits,
  so a range of fewer than three points is returned without reading a point.
\<close>

function simplifyPolyline ::
  "('a \<Rightarrow> 'a \<Rightarrow> bool) \<Rightarrow> ('a \<Rightarrow> 'a \<Rightarrow> 'a \<Rightarrow> 'd) \<Rightarrow> ('d \<Rightarrow> 'd \<Rightarrow> bool) \<Rightarrow> bool \<Rightarrow> 'd \<Rightarrow>
   'a list \<Rightarrow> nat \<Rightarrow> nat \<Rightarrow> ('a list \<times> nat) option" where
  "simplifyPolyline same distSeg lt epsNonPos epsSq arr first fin =
     (let pointA = first;
          pointB = fin - 1
      in if int pointB - int pointA < 2 \<or> same (arr ! pointA) (arr ! pointB) \<or> epsNonPos
         then Some (arr, fin)
         else
           let pointFurthest =
                 max_element arr
                   (\<lambda>pt1 pt2. lt (distSeg pt1 (arr ! pointA) (arr ! pointB))
                                   (distSeg pt2 (arr ! pointA) (arr ! pointB)))
                   (Suc pointA) pointB
           in if lt epsSq (distSeg (arr ! pointFurthest) (arr ! pointA) (arr ! pointB))
              then
                case simplifyPolyline same distSeg lt epsNonPos epsSq arr pointFurthest (Suc pointB) of
                  None \<Rightarrow> None
                | Some (arr1, pointB') \<Rightarrow>
                    (case simplifyPolyline same distSeg lt epsNonPos epsSq arr1 pointA
                            (Suc pointFurthest) of
                       None \<Rightarrow> None
                     | Some (arr2, pointA') \<Rightarrow> compact arr2 pointA' (Suc pointFurthest) pointB')
              else Some (iter_swap arr pointB (Suc pointA), pointA + 2))"
  by pat_completeness auto
lemma simplifyPolyline_measure:
  assumes "\<not> int (fin - Suc 0) - int first < 2"
  shows "fin - max_element arr cmp (Suc first) (fin - Suc 0) < fin - first"
    and "Suc (max_element arr cmp (Suc first) (fin - Suc 0)) - first < fin - first"
proof -
  have lt: "Suc first < fin - Suc 0" using assms(1) by simp
  from max_element_range [OF lt, of arr cmp] lt
  show "fin - max_element arr cmp (Suc first) (fin - Suc 0) < fin - first"
    and "Suc (max_element arr cmp (Suc first) (fin - Suc 0)) - first < fin - first"
    by linarith+
qed

termination simplifyPolyline
  by (relation "measure (\<lambda>(same, distSeg, lt, epsNonPos, epsSq, arr, first, fin). fin - first)")
     (auto simp: simplifyPolyline_measure)

declare simplifyPolyline.simps [simp del]

text \<open>The points of the range \<open>[first, fin)\<close> of a vector, in order.\<close>

definition range_of :: "'a list \<Rightarrow> nat \<Rightarrow> nat \<Rightarrow> 'a list" where
  "range_of arr first fin = map ((!) arr) [first..<fin]"

lemma range_of_split:
  "a \<le> b \<Longrightarrow> b \<le> c \<Longrightarrow> range_of xs a c = range_of xs a b @ range_of xs b c"
  using upt_add_eq_append [of a b "c - b"] by (simp add: range_of_def)

lemma range_of_cong:
  "(\<And>i. a \<le> i \<Longrightarrow> i < b \<Longrightarrow> xs ! i = ys ! i) \<Longrightarrow> range_of xs a b = range_of ys a b"
  by (simp add: range_of_def)

lemma range_of_shift:
  assumes "\<And>j. j < n \<Longrightarrow> xs ! (a + j) = ys ! (p + j)"
  shows "range_of xs a (a + n) = range_of ys p (p + n)"
  by (rule nth_equalityI) (simp_all add: range_of_def assms)

lemma range_of_Cons: "a < b \<Longrightarrow> range_of xs a b = xs ! a # range_of xs (Suc a) b"
  by (simp add: range_of_def upt_conv_Cons)

lemma range_of_snoc:
  assumes "a < b"
  shows "range_of xs a b = range_of xs a (b - 1) @ [xs ! (b - 1)]"
proof -
  obtain c where c: "b = Suc c" using assms by (cases b) auto
  with assms show ?thesis by (simp add: range_of_def)
qed

lemma nth_iter_swap:
  "i < length xs \<Longrightarrow> j < length xs \<Longrightarrow>
     iter_swap xs i j ! k = (if k = i then xs ! j else if k = j then xs ! i else xs ! k)"
  by (auto simp: iter_swap_def nth_list_update)

lemma length_iter_swap: "length (iter_swap xs i j) = length xs"
  by (simp add: iter_swap_def)

lemma compact_spec:
  assumes "pointA \<le> pt" "pt \<le> pointB" "pointB \<le> length arr"
  shows "\<exists>arr'. compact arr pointA pt pointB = Some (arr', pointA + (pointB - pt)) \<and>
           length arr' = length arr \<and>
           (\<forall>j < pointB - pt. arr' ! (pointA + j) = arr ! (pt + j)) \<and>
           (\<forall>i. i < pointA \<or> pointB \<le> i \<longrightarrow> arr' ! i = arr ! i)"
  using assms
proof (induction "pointB - pt" arbitrary: arr pointA pt)
  case 0
  then have "pt = pointB" by simp
  then show ?case by (subst compact.simps) simp
next
  case (Suc n)
  then have lt: "pt < pointB" by simp
  define arr1 where "arr1 = iter_swap arr pointA pt"
  have len1: "length arr1 = length arr" by (simp add: arr1_def length_iter_swap)
  have il: "pointA < length arr" "pt < length arr" using Suc.prems lt by simp_all
  have n1: "arr1 ! k = (if k = pointA then arr ! pt else if k = pt then arr ! pointA else arr ! k)"
    for k unfolding arr1_def by (rule nth_iter_swap [OF il])
  have "n = pointB - Suc pt" using Suc.hyps(2) by simp
  from Suc.hyps(1) [OF this, of "Suc pointA" arr1] Suc.prems lt len1
  obtain arr' where r: "compact arr1 (Suc pointA) (Suc pt) pointB
        = Some (arr', Suc pointA + (pointB - Suc pt))"
    "length arr' = length arr1"
    "\<forall>j < pointB - Suc pt. arr' ! (Suc pointA + j) = arr1 ! (Suc pt + j)"
    "\<forall>i. i < Suc pointA \<or> pointB \<le> i \<longrightarrow> arr' ! i = arr1 ! i"
    by auto
  have eq: "compact arr pointA pt pointB = Some (arr', pointA + (pointB - pt))"
    using lt r(1) by (subst compact.simps) (simp add: arr1_def)
  have a: "arr' ! (pointA + j) = arr ! (pt + j)" if "j < pointB - pt" for j
  proof (cases j)
    case 0
    have "arr' ! pointA = arr1 ! pointA" using r(4) by simp
    then show ?thesis using 0 by (simp add: n1)
  next
    case (Suc j')
    with that have "j' < pointB - Suc pt" by simp
    with r(3) have "arr' ! (Suc pointA + j') = arr1 ! (Suc pt + j')" by blast
    moreover have "arr1 ! (Suc pt + j') = arr ! (Suc pt + j')"
      using Suc.prems(1) by (simp add: n1)
    ultimately show ?thesis using Suc by simp
  qed
  have b: "arr' ! i = arr ! i" if "i < pointA \<or> pointB \<le> i" for i
  proof -
    from that r(4) have "arr' ! i = arr1 ! i" by auto
    moreover have "arr1 ! i = arr ! i" using that Suc.prems(1) lt by (auto simp: n1)
    ultimately show ?thesis by simp
  qed
  from eq r(2) len1 a b show ?case by auto
qed

text \<open>
  What a call on the range \<open>[first, fin)\<close> of \<open>arr\<close> guarantees about the
  vector \<open>arr'\<close> and the iterator \<open>ret\<close> it returns.
\<close>

definition keeps :: "'a list \<Rightarrow> nat \<Rightarrow> nat \<Rightarrow> 'a list \<Rightarrow> nat \<Rightarrow> bool" where
  "keeps arr first fin arr' ret =
     (first < ret \<and> ret \<le> fin \<and> length arr' = length arr \<and>
      subseq (range_of arr' first ret) (range_of arr first fin) \<and>
      arr' ! first = arr ! first \<and> arr' ! (ret - 1) = arr ! (fin - 1) \<and>
      (\<forall>i. i < first \<or> fin \<le> i \<longrightarrow> arr' ! i = arr ! i))"

lemma keeps_all: "first < fin \<Longrightarrow> keeps arr first fin arr fin"
  by (simp add: keeps_def)

lemma keeps_two:
  assumes "first + 2 < fin" "fin \<le> length arr"
  shows "keeps arr first fin (iter_swap arr (fin - 1) (Suc first)) (first + 2)"
proof -
  define arr' where "arr' = iter_swap arr (fin - 1) (Suc first)"
  have n: "arr' ! k = (if k = fin - 1 then arr ! Suc first
                       else if k = Suc first then arr ! (fin - 1) else arr ! k)" for k
    unfolding arr'_def using assms by (intro nth_iter_swap) simp_all
  have ne: "first \<noteq> fin - 1" "Suc first \<noteq> fin - 1" using assms by linarith+
  have a0: "arr' ! first = arr ! first" unfolding n using ne by simp
  have a1: "arr' ! Suc first = arr ! (fin - 1)" unfolding n using ne by simp
  have "[first..<first + 2] = [first, Suc first]" by (simp add: upt_rec)
  then have k: "range_of arr' first (first + 2) = [arr ! first, arr ! (fin - 1)]"
    by (simp add: range_of_def a0 a1)
  have "range_of arr first fin = arr ! first # range_of arr (Suc first) fin"
    using assms by (intro range_of_Cons) simp
  also have "range_of arr (Suc first) fin = range_of arr (Suc first) (fin - 1) @ [arr ! (fin - 1)]"
    using assms by (intro range_of_snoc) simp
  finally have "subseq (range_of arr' first (first + 2)) (range_of arr first fin)"
    unfolding k by (simp add: subseq_rev_drop_many subseq_drop_many)
  moreover have "arr' ! (first + 2 - 1) = arr ! (fin - 1)" using a1 by simp
  moreover note a0
  moreover have "\<forall>i. i < first \<or> fin \<le> i \<longrightarrow> arr' ! i = arr ! i" using assms by (auto simp: n)
  ultimately show ?thesis
    using assms unfolding keeps_def arr'_def [symmetric] by (simp add: arr'_def length_iter_swap)
qed

lemma keeps_compose:
  assumes f: "first < f" "Suc f < fin" "fin \<le> length arr"
    and k1: "keeps arr f fin arr1 pB"
    and k2: "keeps arr1 first (Suc f) arr2 pA"
    and c: "length arr3 = length arr2"
      "\<forall>j < pB - Suc f. arr3 ! (pA + j) = arr2 ! (Suc f + j)"
      "\<forall>i. i < pA \<or> pB \<le> i \<longrightarrow> arr3 ! i = arr2 ! i"
  shows "keeps arr first fin arr3 (pA + (pB - Suc f))"
proof -
  define n where "n = pB - Suc f"
  from k1 have b1: "f < pB" "pB \<le> fin" and len1: "length arr1 = length arr"
    and s1: "subseq (range_of arr1 f pB) (range_of arr f fin)"
    and h1: "arr1 ! f = arr ! f" and l1: "arr1 ! (pB - 1) = arr ! (fin - 1)"
    and o1: "\<And>i. i < f \<or> fin \<le> i \<Longrightarrow> arr1 ! i = arr ! i"
    by (auto simp: keeps_def)
  from k2 have b2: "first < pA" "pA \<le> Suc f" and len2: "length arr2 = length arr1"
    and s2: "subseq (range_of arr2 first pA) (range_of arr1 first (Suc f))"
    and h2: "arr2 ! first = arr1 ! first" and l2: "arr2 ! (pA - 1) = arr1 ! f"
    and o2: "\<And>i. i < first \<or> Suc f \<le> i \<Longrightarrow> arr2 ! i = arr1 ! i"
    by (auto simp: keeps_def)
  have pB: "pB = Suc f + n" using b1 by (simp add: n_def)
  have "range_of arr3 first (pA + n) = range_of arr3 first pA @ range_of arr3 pA (pA + n)"
    using b2 by (intro range_of_split) simp_all
  also have "range_of arr3 first pA = range_of arr2 first pA"
    using c(3) by (intro range_of_cong) simp
  also have "range_of arr3 pA (pA + n) = range_of arr2 (Suc f) (Suc f + n)"
    using c(2) by (intro range_of_shift) (simp add: n_def)
  also have "range_of arr2 (Suc f) (Suc f + n) = range_of arr1 (Suc f) pB"
    unfolding pB using o2 by (intro range_of_cong) simp
  finally have kept: "range_of arr3 first (pA + n)
                      = range_of arr2 first pA @ range_of arr1 (Suc f) pB" .
  have "range_of arr1 f pB = arr ! f # range_of arr1 (Suc f) pB"
    using b1 h1 by (simp add: range_of_Cons)
  moreover have "range_of arr f fin = arr ! f # range_of arr (Suc f) fin"
    using f by (intro range_of_Cons) simp
  ultimately have right: "subseq (range_of arr1 (Suc f) pB) (range_of arr (Suc f) fin)"
    using s1 by simp
  have "range_of arr1 first (Suc f) = range_of arr first (Suc f)"
  proof (rule range_of_cong)
    fix i assume "first \<le> i" "i < Suc f"
    then show "arr1 ! i = arr ! i" using o1 [of i] h1 by (cases "i = f") simp_all
  qed
  with s2 have left: "subseq (range_of arr2 first pA) (range_of arr first (Suc f))" by simp
  have "range_of arr first fin = range_of arr first (Suc f) @ range_of arr (Suc f) fin"
    using f by (intro range_of_split) simp_all
  with left right have sub: "subseq (range_of arr3 first (pA + n)) (range_of arr first fin)"
    unfolding kept by (simp add: list_emb_append_mono)
  have hd: "arr3 ! first = arr ! first"
    using c(3) b2 h2 o1 [of first] f by simp
  have lst: "arr3 ! (pA + n - 1) = arr ! (fin - 1)"
  proof (cases n)
    case 0
    then have "pB - 1 = f" using pB by simp
    with l1 have "arr1 ! f = arr ! (fin - 1)" by simp
    moreover have "arr3 ! (pA - 1) = arr2 ! (pA - 1)" using c(3) b2 by simp
    ultimately show ?thesis using 0 l2 by simp
  next
    case (Suc m)
    then have "m < pB - Suc f" by (simp add: n_def)
    with c(2) have "arr3 ! (pA + m) = arr2 ! (Suc f + m)" by blast
    also have "\<dots> = arr1 ! (Suc f + m)" by (intro o2) simp
    also have "Suc f + m = pB - 1" using pB Suc by simp
    finally show ?thesis using Suc l1 by simp
  qed
  have out: "\<forall>i. i < first \<or> fin \<le> i \<longrightarrow> arr3 ! i = arr ! i"
  proof (intro allI impI)
    fix i assume i: "i < first \<or> fin \<le> i"
    then have "arr3 ! i = arr2 ! i" using c(3) b2 b1 by auto
    also have "\<dots> = arr1 ! i" using i f by (intro o2) auto
    also have "\<dots> = arr ! i" using i f by (intro o1) auto
    finally show "arr3 ! i = arr ! i" .
  qed
  have "first < pA + n" "pA + n \<le> fin" using b1 b2 pB by simp_all
  with sub hd lst out c(1) len1 len2 show ?thesis
    unfolding keeps_def n_def by simp
qed

lemma simplifyPolyline_rec:
  assumes "\<not> (int (fin - 1) - int first < 2 \<or> same (arr ! first) (arr ! (fin - 1)) \<or> epsNonPos)"
  shows "simplifyPolyline same distSeg lt epsNonPos epsSq arr first fin =
     (if lt epsSq (distSeg (arr ! max_element arr
                   (\<lambda>pt1 pt2. lt (distSeg pt1 (arr ! first) (arr ! (fin - 1)))
                                   (distSeg pt2 (arr ! first) (arr ! (fin - 1))))
                   (Suc first) (fin - 1)) (arr ! first) (arr ! (fin - 1)))
      then
        case simplifyPolyline same distSeg lt epsNonPos epsSq arr
               (max_element arr
                   (\<lambda>pt1 pt2. lt (distSeg pt1 (arr ! first) (arr ! (fin - 1)))
                                   (distSeg pt2 (arr ! first) (arr ! (fin - 1))))
                   (Suc first) (fin - 1)) (Suc (fin - 1)) of
          None \<Rightarrow> None
        | Some (arr1, pointB') \<Rightarrow>
            (case simplifyPolyline same distSeg lt epsNonPos epsSq arr1 first
                    (Suc (max_element arr
                   (\<lambda>pt1 pt2. lt (distSeg pt1 (arr ! first) (arr ! (fin - 1)))
                                   (distSeg pt2 (arr ! first) (arr ! (fin - 1))))
                   (Suc first) (fin - 1))) of
               None \<Rightarrow> None
             | Some (arr2, pointA') \<Rightarrow>
                 compact arr2 pointA'
                   (Suc (max_element arr
                   (\<lambda>pt1 pt2. lt (distSeg pt1 (arr ! first) (arr ! (fin - 1)))
                                   (distSeg pt2 (arr ! first) (arr ! (fin - 1))))
                   (Suc first) (fin - 1))) pointB')
      else Some (iter_swap arr (fin - 1) (Suc first), first + 2))"
proof -
  from assms have c: "(int (fin - 1) - int first < 2 \<or> same (arr ! first) (arr ! (fin - 1)) \<or>
                       epsNonPos) = False" by simp
  show ?thesis
    by (subst simplifyPolyline.simps) (simp only: Let_def c if_False)
qed

lemma simplifyPolyline_keeps:
  assumes "first < fin" "fin \<le> length arr"
  shows "\<exists>arr' ret. simplifyPolyline same distSeg lt epsNonPos epsSq arr first fin = Some (arr', ret) \<and>
           keeps arr first fin arr' ret"
  using assms
proof (induction "fin - first" arbitrary: arr first fin rule: less_induct)
  case less
  define pointB where "pointB = fin - 1"
  define f where "f = max_element arr
                   (\<lambda>pt1 pt2. lt (distSeg pt1 (arr ! first) (arr ! pointB))
                                   (distSeg pt2 (arr ! first) (arr ! pointB)))
                   (Suc first) pointB"
  show ?case
  proof (cases "int pointB - int first < 2 \<or> same (arr ! first) (arr ! pointB) \<or> epsNonPos")
    case True
    then have "simplifyPolyline same distSeg lt epsNonPos epsSq arr first fin = Some (arr, fin)"
      by (subst simplifyPolyline.simps) (simp add: pointB_def Let_def)
    with keeps_all [OF less.prems(1)] show ?thesis by blast
  next
    case False
    note rec = simplifyPolyline_rec [where same = same and arr = arr and first = first
        and fin = fin and epsNonPos = epsNonPos and distSeg = distSeg and lt = lt
        and epsSq = epsSq, OF False [unfolded pointB_def], folded pointB_def, folded f_def]
    from False have "\<not> int (fin - 1) - int first < 2" by (simp add: pointB_def)
    then have big: "first + 2 < fin" by linarith
    then have sb: "Suc pointB = fin" by (simp add: pointB_def)
    have "Suc first < pointB" using big by (simp add: pointB_def)
    then have "Suc first \<le> f \<and> f < pointB"
      unfolding f_def by (rule max_element_range)
    then have fr: "Suc first \<le> f" "f < pointB" by simp_all
    show ?thesis
    proof (cases "lt epsSq (distSeg (arr ! f) (arr ! first) (arr ! pointB))")
      case far: False
      have "simplifyPolyline same distSeg lt epsNonPos epsSq arr first fin
            = Some (iter_swap arr pointB (Suc first), first + 2)"
        by (simp only: rec far if_False)
      with keeps_two [OF big less.prems(2)] show ?thesis by (auto simp: pointB_def)
    next
      case far: True
      have f_lt: "f < fin" "Suc f < fin" using fr by (simp_all add: pointB_def)
      have "fin - f < fin - first" using fr f_lt by linarith
      from less.hyps [OF this f_lt(1) less.prems(2)] obtain arr1 pB where
        r1: "simplifyPolyline same distSeg lt epsNonPos epsSq arr f fin = Some (arr1, pB)"
        and k1: "keeps arr f fin arr1 pB"
        by blast
      have len1: "length arr1 = length arr" using k1 by (simp add: keeps_def)
      have m2: "Suc f - first < fin - first" using fr f_lt by linarith
      have p2: "first < Suc f" "Suc f \<le> length arr1"
        using fr f_lt less.prems(2) len1 by simp_all
      from less.hyps [OF m2 p2] obtain arr2 pA where
        r2: "simplifyPolyline same distSeg lt epsNonPos epsSq arr1 first (Suc f) = Some (arr2, pA)"
        and k2: "keeps arr1 first (Suc f) arr2 pA"
        by blast
      have b: "pA \<le> Suc f" "Suc f \<le> pB" "pB \<le> length arr2"
        using k1 k2 less.prems(2) by (simp_all add: keeps_def)
      from compact_spec [OF b] obtain arr3 where
        r3: "compact arr2 pA (Suc f) pB = Some (arr3, pA + (pB - Suc f))"
        and c: "length arr3 = length arr2"
          "\<forall>j < pB - Suc f. arr3 ! (pA + j) = arr2 ! (Suc f + j)"
          "\<forall>i. i < pA \<or> pB \<le> i \<longrightarrow> arr3 ! i = arr2 ! i"
        by blast
      have "simplifyPolyline same distSeg lt epsNonPos epsSq arr first fin
            = Some (arr3, pA + (pB - Suc f))"
        by (simp only: rec far if_True sb r1 r2 r3 option.case prod.case)
      moreover have "first < f" using fr by simp
      then have "keeps arr first fin arr3 (pA + (pB - Suc f))"
        using f_lt(2) less.prems(2) k1 k2 c by (rule keeps_compose)
      ultimately show ?thesis by blast
    qed
  qed
qed

text \<open>
  C9. For every range \<open>[first, fin)\<close> of a vector, every epsilon and every
  distance: when the range has fewer than 3 points, or its first and last
  points are equal, or epsilon is not positive, the call returns \<open>fin\<close> and
  leaves the vector as it is. For a range that is not empty the call
  returns an iterator \<open>ret\<close> in \<open>(first, fin]\<close>; the points kept, those of
  \<open>[first, ret)\<close> after the call, are a subsequence of the points of the
  range before the call (a subset, in their original relative order); the
  first point kept is the first point of the range and the last point kept
  is its last point; nothing outside the range is changed.
\<close>

theorem simplifyPolyline_keeps_prefix:
  assumes "first \<le> fin" "fin \<le> length arr"
  shows "(fin - first < 3 \<or> same (arr ! first) (arr ! (fin - 1)) \<or> epsNonPos \<longrightarrow>
            simplifyPolyline same distSeg lt epsNonPos epsSq arr first fin = Some (arr, fin)) \<and>
         (first < fin \<longrightarrow>
            (\<exists>arr' ret. simplifyPolyline same distSeg lt epsNonPos epsSq arr first fin
                 = Some (arr', ret) \<and>
               first < ret \<and> ret \<le> fin \<and> length arr' = length arr \<and>
               subseq (range_of arr' first ret) (range_of arr first fin) \<and>
               arr' ! first = arr ! first \<and> arr' ! (ret - 1) = arr ! (fin - 1) \<and>
               (\<forall>i. i < first \<or> fin \<le> i \<longrightarrow> arr' ! i = arr ! i)))"
proof (intro conjI impI)
  assume "fin - first < 3 \<or> same (arr ! first) (arr ! (fin - 1)) \<or> epsNonPos"
  then have "int (fin - 1) - int first < 2 \<or> same (arr ! first) (arr ! (fin - 1)) \<or> epsNonPos"
    using assms(1) by auto
  then show "simplifyPolyline same distSeg lt epsNonPos epsSq arr first fin = Some (arr, fin)"
    by (subst simplifyPolyline.simps) (simp add: Let_def)
next
  assume "first < fin"
  from simplifyPolyline_keeps [OF this assms(2), of same distSeg lt epsNonPos epsSq]
  show "\<exists>arr' ret. simplifyPolyline same distSeg lt epsNonPos epsSq arr first fin
                 = Some (arr', ret) \<and>
               first < ret \<and> ret \<le> fin \<and> length arr' = length arr \<and>
               subseq (range_of arr' first ret) (range_of arr first fin) \<and>
               arr' ! first = arr ! first \<and> arr' ! (ret - 1) = arr ! (fin - 1) \<and>
               (\<forall>i. i < first \<or> fin \<le> i \<longrightarrow> arr' ! i = arr ! i)"
    unfolding keeps_def by blast
qed

text \<open>
  A distance on integer points for evaluating the model: the square of the
  cross product of \<open>b - a\<close> and \<open>p - a\<close>.
\<close>

definition crossSq :: "int \<times> int \<Rightarrow> int \<times> int \<Rightarrow> int \<times> int \<Rightarrow> int" where
  "crossSq p a b = (let cross = (fst b - fst a) * (snd p - snd a) - (snd b - snd a) * (fst p - fst a)
                   in cross * cross)"

theorem simplifyPolyline_keeps_prefix_witness:
  "simplifyPolyline (=) crossSq (<) False 400 ([(0, 0), (1, 10), (2, 0), (3, 10), (4, 0)] :: (int \<times> int) list) 0 5 = Some (([(0, 0), (1, 10), (4, 0), (3, 10), (2, 0)] :: (int \<times> int) list), 3) \<and>
   subseq (range_of ([(0, 0), (1, 10), (4, 0), (3, 10), (2, 0)] :: (int \<times> int) list) 0 3) (range_of ([(0, 0), (1, 10), (2, 0), (3, 10), (4, 0)] :: (int \<times> int) list) 0 5) \<and>
   ([(0, 0), (1, 10), (4, 0), (3, 10), (2, 0)] :: (int \<times> int) list) ! 0 = ([(0, 0), (1, 10), (2, 0), (3, 10), (4, 0)] :: (int \<times> int) list) ! 0 \<and> ([(0, 0), (1, 10), (4, 0), (3, 10), (2, 0)] :: (int \<times> int) list) ! (3 - 1) = ([(0, 0), (1, 10), (2, 0), (3, 10), (4, 0)] :: (int \<times> int) list) ! (5 - 1) \<and>
   simplifyPolyline (=) crossSq (<) True 400 ([(0, 0), (1, 10), (2, 0), (3, 10), (4, 0)] :: (int \<times> int) list) 0 5 = Some (([(0, 0), (1, 10), (2, 0), (3, 10), (4, 0)] :: (int \<times> int) list), 5)"
proof -
  have h: "(0::nat) \<le> 5" "5 \<le> length [(0, 0), (1, 10), (2, 0), (3, 10), (4, 0)]" by simp_all
  have v: "simplifyPolyline (=) crossSq (<) False 400 [(0, 0), (1, 10), (2, 0), (3, 10), (4, 0)] 0 5 = Some ([(0, 0), (1, 10), (4, 0), (3, 10), (2, 0)], 3)" by code_simp
  note t = simplifyPolyline_keeps_prefix [OF h]
  from t [of "(=)" True crossSq "(<)" 400, THEN conjunct1]
  have b: "simplifyPolyline (=) crossSq (<) True 400 [(0, 0), (1, 10), (2, 0), (3, 10), (4, 0)] 0 5 = Some ([(0, 0), (1, 10), (2, 0), (3, 10), (4, 0)], 5)" by simp
  from t [of "(=)" False crossSq "(<)" 400, THEN conjunct2] obtain arr' ret where
    r: "simplifyPolyline (=) crossSq (<) False 400 [(0, 0), (1, 10), (2, 0), (3, 10), (4, 0)] 0 5 = Some (arr', ret)"
    "subseq (range_of arr' 0 ret) (range_of [(0, 0), (1, 10), (2, 0), (3, 10), (4, 0)] 0 5)"
    "arr' ! 0 = [(0, 0), (1, 10), (2, 0), (3, 10), (4, 0)] ! 0" "arr' ! (ret - 1) = [(0, 0), (1, 10), (2, 0), (3, 10), (4, 0)] ! (5 - 1)"
    by auto
  from r(1) v have "arr' = [(0, 0), (1, 10), (4, 0), (3, 10), (2, 0)]" "ret = 3" by simp_all
  with r(2,3,4) v b show ?thesis by simp
qed

end
